theory Spec2Isabelle
  imports Complex_Main
begin

section \<open>Strings and character classes\<close>

text \<open>
  The program is TypeScript. A string is a sequence of UTF-16 code units, and every
  regular expression of the engine that has no \<^verbatim>\<open>u\<close> flag works on code units. A code unit
  is modelled as a natural number and a string as a list of them; the glyphs the
  engine names are constants holding their code unit.
\<close>

type_synonym uchar = nat
type_synonym jstring = "uchar list"

definition js :: "string \<Rightarrow> jstring" where
  "js s = map of_char s"

definition c_space :: uchar where "c_space = 0x20"
definition c_newline :: uchar where "c_newline = 0x0A"
definition c_cr :: uchar where "c_cr = 0x0D"
definition c_hash :: uchar where "c_hash = 0x23"
definition c_lparen :: uchar where "c_lparen = 0x28"
definition c_rparen :: uchar where "c_rparen = 0x29"
definition c_star :: uchar where "c_star = 0x2A"
definition c_plus :: uchar where "c_plus = 0x2B"
definition c_minus :: uchar where "c_minus = 0x2D"
definition c_slash :: uchar where "c_slash = 0x2F"
definition c_colon :: uchar where "c_colon = 0x3A"
definition c_semi :: uchar where "c_semi = 0x3B"
definition c_lt :: uchar where "c_lt = 0x3C"
definition c_eq :: uchar where "c_eq = 0x3D"
definition c_gt :: uchar where "c_gt = 0x3E"
definition c_backslash :: uchar where "c_backslash = 0x5C"
definition c_caret :: uchar where "c_caret = 0x5E"
definition c_underscore :: uchar where "c_underscore = 0x5F"
definition c_v :: uchar where "c_v = 0x76"
definition c_lbrace :: uchar where "c_lbrace = 0x7B"
definition c_bar :: uchar where "c_bar = 0x7C"
definition c_rbrace :: uchar where "c_rbrace = 0x7D"

text \<open>Box-drawing glyphs, named after their shape.\<close>

definition g_horz :: uchar where "g_horz = 0x2500"        \<comment> \<open>light horizontal\<close>
definition g_vert :: uchar where "g_vert = 0x2502"        \<comment> \<open>light vertical\<close>
definition g_down_right :: uchar where "g_down_right = 0x250C"  \<comment> \<open>top-left corner\<close>
definition g_down_left :: uchar where "g_down_left = 0x2510"    \<comment> \<open>top-right corner\<close>
definition g_up_right :: uchar where "g_up_right = 0x2514"      \<comment> \<open>bottom-left corner\<close>
definition g_up_left :: uchar where "g_up_left = 0x2518"        \<comment> \<open>bottom-right corner\<close>
definition g_vert_right :: uchar where "g_vert_right = 0x251C"  \<comment> \<open>left tee\<close>
definition g_vert_left :: uchar where "g_vert_left = 0x2524"    \<comment> \<open>right tee\<close>
definition g_down_horz :: uchar where "g_down_horz = 0x252C"    \<comment> \<open>top tee\<close>
definition g_up_horz :: uchar where "g_up_horz = 0x2534"        \<comment> \<open>bottom tee\<close>
definition g_cross :: uchar where "g_cross = 0x253C"            \<comment> \<open>four-way junction\<close>
definition g_dbl_horz :: uchar where "g_dbl_horz = 0x2550"      \<comment> \<open>double horizontal\<close>
definition g_dbl_vert :: uchar where "g_dbl_vert = 0x2551"      \<comment> \<open>double vertical\<close>

lemmas glyph_defs =
  c_space_def c_newline_def c_cr_def c_hash_def c_lparen_def c_rparen_def c_star_def
  c_plus_def c_minus_def c_slash_def c_colon_def c_semi_def c_lt_def c_eq_def c_gt_def
  c_backslash_def c_caret_def c_underscore_def c_v_def c_lbrace_def c_bar_def c_rbrace_def
  g_horz_def g_vert_def g_down_right_def g_down_left_def g_up_right_def g_up_left_def
  g_vert_right_def g_vert_left_def g_down_horz_def g_up_horz_def g_cross_def
  g_dbl_horz_def g_dbl_vert_def

text \<open>
  \<^verbatim>\<open>/[...]/.test(s)\<close> with an unanchored character class holds when some code unit
  of \<open>s\<close> is in the class; \<^verbatim>\<open>s === 'c'\<close> holds when \<open>s\<close> is exactly that one unit.
\<close>

definition testClass :: "uchar list \<Rightarrow> jstring \<Rightarrow> bool" where
  "testClass cls s = list_ex (\<lambda>c. List.member cls c) s"

definition RICH_MODE_DETECTOR :: "uchar list" where
  "RICH_MODE_DETECTOR = [g_horz, g_vert, g_down_right, g_down_left, g_up_right, g_up_left,
     g_vert_right, g_vert_left, g_down_horz, g_up_horz, g_cross, g_dbl_vert]"

definition RICH_STRUCTURE_CHARS :: "uchar list" where
  "RICH_STRUCTURE_CHARS = [g_horz, g_vert, g_down_right, g_down_left, g_up_right, g_up_left,
     g_vert_right, g_vert_left, g_down_horz, g_up_horz, g_cross, g_dbl_vert]"

definition ASCII_STRUCTURE_CHARS :: "uchar list" where
  "ASCII_STRUCTURE_CHARS = [g_horz, g_vert, g_down_right, g_down_left, g_up_right, g_up_left,
     g_vert_right, g_vert_left, g_down_horz, g_up_horz, g_cross, g_dbl_vert,
     c_bar, c_underscore, c_eq, c_slash, c_backslash, c_star, c_plus, c_minus, c_v, c_lt, c_gt]"

definition RICH_VERTICAL_CHARS :: "uchar list" where
  "RICH_VERTICAL_CHARS = [g_vert, g_dbl_vert]"

definition ASCII_VERTICAL_CHARS :: "uchar list" where
  "ASCII_VERTICAL_CHARS = [g_vert, g_dbl_vert, c_bar]"

definition CORNER_CHARS :: "uchar list" where
  "CORNER_CHARS = [g_down_right, g_down_left, g_up_right, g_up_left,
     g_vert_right, g_vert_left, g_down_horz, g_up_horz, g_cross]"

section \<open>Structural classifier\<close>

definition detectRichMode :: "jstring \<Rightarrow> bool" where
  "detectRichMode input = testClass RICH_MODE_DETECTOR input"

definition isStructure :: "jstring \<Rightarrow> bool \<Rightarrow> bool" where
  "isStructure char isRichMode =
     (if isRichMode then testClass RICH_STRUCTURE_CHARS char
      else testClass ASCII_STRUCTURE_CHARS char)"

definition isVert :: "jstring \<Rightarrow> bool \<Rightarrow> bool" where
  "isVert char isRichMode =
     (if isRichMode then testClass RICH_VERTICAL_CHARS char
      else testClass ASCII_VERTICAL_CHARS char)"

definition isCorner :: "jstring \<Rightarrow> bool" where
  "isCorner char = testClass CORNER_CHARS char"

definition CONNECTS_DOWN_RICH :: "uchar list" where
  "CONNECTS_DOWN_RICH = [g_vert, g_dbl_vert, g_down_right, g_down_left, g_vert_right,
     g_vert_left, g_down_horz, g_cross, 0x2554, 0x2557, 0x2560, 0x2563, 0x2566, 0x256C,
     0x2553, 0x2556, 0x2552, 0x2555, 0x2565, 0x2564, 0x256B]"

definition CONNECTS_UP_RICH :: "uchar list" where
  "CONNECTS_UP_RICH = [g_vert, g_dbl_vert, g_up_right, g_up_left, g_vert_right,
     g_vert_left, g_up_horz, g_cross, 0x255A, 0x255D, 0x2560, 0x2563, 0x2569, 0x256C,
     0x2559, 0x255C, 0x2558, 0x255B, 0x2568, 0x2567, 0x256B]"

definition connectsDown :: "jstring \<Rightarrow> bool \<Rightarrow> bool" where
  "connectsDown char isRichMode =
     (if isRichMode then
        (if char = [g_horz] \<or> char = [g_dbl_horz] then False
         else testClass CONNECTS_DOWN_RICH char)
      else if char = [c_minus] \<or> char = [c_eq] \<or> char = [c_underscore] then False
      else testClass [c_bar, c_plus, c_v] char)"

definition connectsUp :: "jstring \<Rightarrow> bool \<Rightarrow> bool" where
  "connectsUp char isRichMode =
     (if isRichMode then
        (if char = [g_horz] \<or> char = [g_dbl_horz] then False
         else testClass CONNECTS_UP_RICH char)
      else if char = [c_minus] \<or> char = [c_eq] \<or> char = [c_underscore] then False
      else testClass [c_bar, c_plus, c_v] char)"

definition shouldStartAtCenter :: "jstring \<Rightarrow> bool \<Rightarrow> bool" where
  "shouldStartAtCenter char isRichMode =
     (if isRichMode then
        testClass [g_down_right, g_down_left, g_down_horz, 0x2554, 0x2557, 0x2566, 0x2553,
          0x2556, 0x2565, 0x2552, 0x2555, 0x2564, g_cross, 0x2560, 0x2563, 0x256C, 0x255F,
          0x2562, 0x256B, 0x255E, 0x2561, 0x256A, g_vert_right, g_vert_left] char
      else testClass [c_plus, c_v] char)"

definition shouldEndAtCenter :: "jstring \<Rightarrow> bool \<Rightarrow> bool" where
  "shouldEndAtCenter char isRichMode =
     (if isRichMode then
        testClass [g_up_right, g_up_left, g_up_horz, 0x255A, 0x255D, 0x2569, 0x2559,
          0x255C, 0x2568, 0x2558, 0x255B, 0x2567, g_cross, 0x2560, 0x2563, 0x256C, 0x255F,
          0x2562, 0x256B, 0x255E, 0x2561, 0x256A, g_vert_right, g_vert_left] char
      else testClass [c_plus, c_v, c_caret] char)"

section \<open>JavaScript string primitives\<close>

text \<open>
  \<^verbatim>\<open>\s\<close> and \<^verbatim>\<open>String.prototype.trim\<close> use the same set: the ECMAScript white space
  and line terminator code units.
\<close>

definition isJsSpace :: "uchar \<Rightarrow> bool" where
  "isJsSpace c =
     (List.member [0x09, 0x0A, 0x0B, 0x0C, 0x0D, 0x20, 0xA0, 0x1680, 0x2028, 0x2029,
                   0x202F, 0x205F, 0x3000, 0xFEFF] c
      \<or> (0x2000 \<le> c \<and> c \<le> 0x200A))"

definition trimStart :: "jstring \<Rightarrow> jstring" where
  "trimStart s = dropWhile isJsSpace s"

definition trimEnd :: "jstring \<Rightarrow> jstring" where
  "trimEnd s = rev (dropWhile isJsSpace (rev s))"

definition trim :: "jstring \<Rightarrow> jstring" where
  "trim s = trimEnd (trimStart s)"

definition isUpperAscii :: "uchar \<Rightarrow> bool" where
  "isUpperAscii c = (0x41 \<le> c \<and> c \<le> 0x5A)"

definition isLowerAscii :: "uchar \<Rightarrow> bool" where
  "isLowerAscii c = (0x61 \<le> c \<and> c \<le> 0x7A)"

definition isAsciiLetter :: "uchar \<Rightarrow> bool" where
  "isAsciiLetter c = (isUpperAscii c \<or> isLowerAscii c)"

definition isDigit :: "uchar \<Rightarrow> bool" where
  "isDigit c = (0x30 \<le> c \<and> c \<le> 0x39)"

text \<open>
  \<^verbatim>\<open>[0-9a-f]\<close> under the \<^verbatim>\<open>i\<close> flag. Without the \<^verbatim>\<open>u\<close> flag case folding never maps a
  code unit above 127 to an ASCII one, so the class is exactly the ASCII hex digits.
\<close>

definition isHexDigit :: "uchar \<Rightarrow> bool" where
  "isHexDigit c = (isDigit c \<or> (0x61 \<le> c \<and> c \<le> 0x66) \<or> (0x41 \<le> c \<and> c \<le> 0x46))"

text \<open>
  \<^verbatim>\<open>toLowerCase\<close> is only ever applied to strings of ASCII letters (a marker key, which
  matched \<^verbatim>\<open>[a-zA-Z]+\<close>, and a value that matched \<^verbatim>\<open>/^[a-z]+$/i\<close>); there it maps
  \<^verbatim>\<open>A-Z\<close> to \<^verbatim>\<open>a-z\<close>.
\<close>

definition toLowerCase :: "jstring \<Rightarrow> jstring" where
  "toLowerCase s = map (\<lambda>c. if isUpperAscii c then c + 0x20 else c) s"

text \<open>\<^verbatim>\<open>s.split('\n')\<close>: always at least one piece.\<close>

fun splitOn :: "uchar \<Rightarrow> jstring \<Rightarrow> jstring list" where
  "splitOn d [] = [[]]"
| "splitOn d (c # cs) =
     (if c = d then [] # splitOn d cs
      else (case splitOn d cs of [] \<Rightarrow> [[c]] | l # ls \<Rightarrow> (c # l) # ls))"

text \<open>\<^verbatim>\<open>xs.join(d)\<close>.\<close>

fun joinWith :: "jstring \<Rightarrow> jstring list \<Rightarrow> jstring" where
  "joinWith d [] = []"
| "joinWith d [x] = x"
| "joinWith d (x # y # ys) = x @ d @ joinWith d (y # ys)"

text \<open>The first statement of both entry points removes the zero-width code units U+200B to U+200D and U+FEFF.\<close>

definition removeZeroWidth :: "jstring \<Rightarrow> jstring" where
  "removeZeroWidth s = filter (\<lambda>c. \<not> ((0x200B \<le> c \<and> c \<le> 0x200D) \<or> c = 0xFEFF)) s"

text \<open>\<^verbatim>\<open>line.replace(/\r$/, '')\<close>: without the \<^verbatim>\<open>m\<close> flag, \<^verbatim>\<open>$\<close> is the end of the string.\<close>

definition stripTrailingCR :: "jstring \<Rightarrow> jstring" where
  "stripTrailingCR s = (if s \<noteq> [] \<and> last s = c_cr then butlast s else s)"

section \<open>Grapheme and width model\<close>

text \<open>
  \<^verbatim>\<open>splitGraphemes\<close> uses the instance's \<^verbatim>\<open>Intl.Segmenter\<close> when the constructor found
  one and \<^verbatim>\<open>Array.from(text)\<close> otherwise. The segmenter belongs to the host, so it is a
  parameter: \<open>None\<close> is the field \<^verbatim>\<open>segmenter = null\<close>. \<^verbatim>\<open>Array.from\<close> splits a string
  into code points, pairing a high surrogate with the low surrogate that follows it.
\<close>

type_synonym segmenter = "(jstring \<Rightarrow> jstring list) option"

definition isHighSurrogate :: "uchar \<Rightarrow> bool" where
  "isHighSurrogate c = (0xD800 \<le> c \<and> c \<le> 0xDBFF)"

definition isLowSurrogate :: "uchar \<Rightarrow> bool" where
  "isLowSurrogate c = (0xDC00 \<le> c \<and> c \<le> 0xDFFF)"

fun arrayFrom :: "jstring \<Rightarrow> jstring list" where
  "arrayFrom [] = []"
| "arrayFrom [c] = [[c]]"
| "arrayFrom (c # d # cs) =
     (if isHighSurrogate c \<and> isLowSurrogate d then [c, d] # arrayFrom cs
      else [c] # arrayFrom (d # cs))"

definition splitGraphemes :: "segmenter \<Rightarrow> jstring \<Rightarrow> jstring list" where
  "splitGraphemes seg text = (case seg of Some f \<Rightarrow> f text | None \<Rightarrow> arrayFrom text)"

text \<open>
  The width heuristics use regular expressions with the \<^verbatim>\<open>u\<close> flag, which read code
  points: \<open>codePoints\<close> decodes the surrogate pairs of a string.
\<close>

fun codePoints :: "jstring \<Rightarrow> nat list" where
  "codePoints [] = []"
| "codePoints [c] = [c]"
| "codePoints (c # d # cs) =
     (if isHighSurrogate c \<and> isLowSurrogate d
      then (0x10000 + (c - 0xD800) * 0x400 + (d - 0xDC00)) # codePoints cs
      else c # codePoints (d # cs))"

definition inRange :: "nat \<Rightarrow> nat \<Rightarrow> nat \<Rightarrow> bool" where
  "inRange lo hi c = (lo \<le> c \<and> c \<le> hi)"

definition getGraphemeWidth :: "jstring \<Rightarrow> nat" where
  "getGraphemeWidth grapheme =
     (if length grapheme = 1 \<and> hd grapheme < 127 then 1
      else if list_ex (\<lambda>c. inRange 0x1F300 0x1F9FF c \<or> inRange 0x2600 0x27BF c
                           \<or> inRange 0x4E00 0x9FFF c) (codePoints grapheme)
      then 2 else 1)"

definition getRichModeWidth :: "jstring \<Rightarrow> nat" where
  "getRichModeWidth grapheme =
     (if list_ex (inRange 0x1F300 0x1F9FF) (codePoints grapheme)
         \<or> list_ex (inRange 0x1FA00 0x1FAFF) (codePoints grapheme)
         \<or> list_ex (inRange 0x2600 0x27BF) (codePoints grapheme)
         \<or> list_ex (inRange 0x4E00 0x9FFF) (codePoints grapheme)
         \<or> List.member grapheme 0xFE0F
      then 2 else 1)"

definition getDisplayWidth :: "jstring \<Rightarrow> bool \<Rightarrow> nat" where
  "getDisplayWidth grapheme isRichMode =
     (if isRichMode then getRichModeWidth grapheme else getGraphemeWidth grapheme)"

definition getTextDisplayWidth :: "segmenter \<Rightarrow> jstring \<Rightarrow> bool \<Rightarrow> nat" where
  "getTextDisplayWidth seg text isRichMode =
     foldl (\<lambda>width grapheme. width + getDisplayWidth grapheme isRichMode) 0
       (splitGraphemes seg text)"

section \<open>Marker parser\<close>

definition CSS_NAMED_COLORS :: "jstring list" where
  "CSS_NAMED_COLORS = [
    js ''aliceblue'', js ''antiquewhite'', js ''aqua'', js ''aquamarine'', js ''azure'',
    js ''beige'', js ''bisque'', js ''black'', js ''blanchedalmond'', js ''blue'',
    js ''blueviolet'', js ''brown'', js ''burlywood'', js ''cadetblue'', js ''chartreuse'',
    js ''chocolate'', js ''coral'', js ''cornflowerblue'', js ''cornsilk'', js ''crimson'',
    js ''cyan'', js ''darkblue'', js ''darkcyan'', js ''darkgoldenrod'', js ''darkgray'',
    js ''darkgreen'', js ''darkgrey'', js ''darkkhaki'', js ''darkmagenta'',
    js ''darkolivegreen'', js ''darkorange'', js ''darkorchid'', js ''darkred'',
    js ''darksalmon'', js ''darkseagreen'', js ''darkslateblue'', js ''darkslategray'',
    js ''darkslategrey'', js ''darkturquoise'', js ''darkviolet'', js ''deeppink'',
    js ''deepskyblue'', js ''dimgray'', js ''dimgrey'', js ''dodgerblue'', js ''firebrick'',
    js ''floralwhite'', js ''forestgreen'', js ''fuchsia'', js ''gainsboro'',
    js ''ghostwhite'', js ''gold'', js ''goldenrod'', js ''gray'', js ''green'',
    js ''greenyellow'', js ''grey'', js ''honeydew'', js ''hotpink'', js ''indianred'',
    js ''indigo'', js ''ivory'', js ''khaki'', js ''lavender'', js ''lavenderblush'',
    js ''lawngreen'', js ''lemonchiffon'', js ''lightblue'', js ''lightcoral'',
    js ''lightcyan'', js ''lightgoldenrodyellow'', js ''lightgray'', js ''lightgreen'',
    js ''lightgrey'', js ''lightpink'', js ''lightsalmon'', js ''lightseagreen'',
    js ''lightskyblue'', js ''lightslategray'', js ''lightslategrey'',
    js ''lightsteelblue'', js ''lightyellow'', js ''lime'', js ''limegreen'', js ''linen'',
    js ''magenta'', js ''maroon'', js ''mediumaquamarine'', js ''mediumblue'',
    js ''mediumorchid'', js ''mediumpurple'', js ''mediumseagreen'', js ''mediumslateblue'',
    js ''mediumspringgreen'', js ''mediumturquoise'', js ''mediumvioletred'',
    js ''midnightblue'', js ''mintcream'', js ''mistyrose'', js ''moccasin'',
    js ''navajowhite'', js ''navy'', js ''oldlace'', js ''olive'', js ''olivedrab'',
    js ''orange'', js ''orangered'', js ''orchid'', js ''palegoldenrod'', js ''palegreen'',
    js ''paleturquoise'', js ''palevioletred'', js ''papayawhip'', js ''peachpuff'',
    js ''peru'', js ''pink'', js ''plum'', js ''powderblue'', js ''purple'',
    js ''rebeccapurple'', js ''red'', js ''rosybrown'', js ''royalblue'',
    js ''saddlebrown'', js ''salmon'', js ''sandybrown'', js ''seagreen'', js ''seashell'',
    js ''sienna'', js ''silver'', js ''skyblue'', js ''slateblue'', js ''slategray'',
    js ''slategrey'', js ''snow'', js ''springgreen'', js ''steelblue'', js ''tan'',
    js ''teal'', js ''thistle'', js ''tomato'', js ''turquoise'', js ''violet'',
    js ''wheat'', js ''white'', js ''whitesmoke'', js ''yellow'', js ''yellowgreen'']"

text \<open>\<^verbatim>\<open>/url\s*\(/i\<close>, tried at the head of a string and then anywhere in it.\<close>

fun matchUrlAt :: "jstring \<Rightarrow> bool" where
  "matchUrlAt (u # r # l # rest) =
     ((u = 0x75 \<or> u = 0x55) \<and> (r = 0x72 \<or> r = 0x52) \<and> (l = 0x6C \<or> l = 0x4C) \<and>
      (case dropWhile isJsSpace rest of [] \<Rightarrow> False | p # _ \<Rightarrow> p = c_lparen))"
| "matchUrlAt _ = False"

fun testUrl :: "jstring \<Rightarrow> bool" where
  "testUrl [] = False"
| "testUrl (c # cs) = (matchUrlAt (c # cs) \<or> testUrl cs)"

text \<open>\<^verbatim>\<open>/^#[0-9a-f]{n}$/i\<close>.\<close>

definition matchHex :: "nat \<Rightarrow> jstring \<Rightarrow> bool" where
  "matchHex n s =
     (case s of [] \<Rightarrow> False
      | h # ds \<Rightarrow> h = c_hash \<and> length ds = n \<and> list_all isHexDigit ds)"

definition isSafeColorValue :: "jstring \<Rightarrow> bool" where
  "isSafeColorValue v =
     (let trimmed = trim v in
      if trimmed = [] then False
      else if testUrl trimmed then False
      else if testClass [c_lparen, c_rparen, c_semi, c_lbrace, c_rbrace] trimmed then False
      else if matchHex 3 trimmed then True
      else if matchHex 6 trimmed then True
      else if list_all isAsciiLetter trimmed
        then List.member CSS_NAMED_COLORS (toLowerCase trimmed)
      else False)"

text \<open>
  \<^verbatim>\<open>COLOR_MARKER_REGEX = /\{\s*#([a-zA-Z]+)\s*:\s*([^}]+?)\s*\}/g\<close>, tried at the head of a
  string. Every step up to the colon is forced: white space is neither \<^verbatim>\<open>#\<close>, a letter nor
  \<^verbatim>\<open>:\<close>, and a letter is neither white space nor \<^verbatim>\<open>:\<close>, so giving back part of a greedy
  run never helps. After the colon the pattern \<^verbatim>\<open>\s*([^}]+?)\s*\}\<close> covers the run of
  code units up to the first \<^verbatim>\<open>}\<close>, which must not be empty. Group 2 is that run without
  its leading and trailing white space; when the run is all white space the greedy
  \<^verbatim>\<open>\s*\<close> gives back its last unit and group 2 is that unit. The result is group 1,
  group 2 and the text after the match.
\<close>

definition matchMarkerAt :: "jstring \<Rightarrow> (jstring \<times> jstring \<times> jstring) option" where
  "matchMarkerAt s =
     (case s of [] \<Rightarrow> None
      | b # s1 \<Rightarrow>
        if b \<noteq> c_lbrace then None
        else (case dropWhile isJsSpace s1 of [] \<Rightarrow> None
          | h # s2 \<Rightarrow>
            if h \<noteq> c_hash then None
            else if takeWhile isAsciiLetter s2 = [] then None
            else (case dropWhile isJsSpace (dropWhile isAsciiLetter s2) of [] \<Rightarrow> None
              | cl # s3 \<Rightarrow>
                if cl \<noteq> c_colon then None
                else if takeWhile (\<lambda>c. c \<noteq> c_rbrace) s3 = [] then None
                else (case dropWhile (\<lambda>c. c \<noteq> c_rbrace) s3 of [] \<Rightarrow> None
                  | _ # rest \<Rightarrow>
                    let body = takeWhile (\<lambda>c. c \<noteq> c_rbrace) s3 in
                    Some (takeWhile isAsciiLetter s2,
                          (if dropWhile isJsSpace body = [] then [last body]
                           else trimEnd (dropWhile isJsSpace body)),
                          rest)))))"

record ParsedMarker =
  key :: jstring
  val :: jstring
  index :: nat

record ParsedLineMarkers =
  rawLine :: jstring
  cleanLine :: jstring
  markers :: "ParsedMarker list"
  hadMarkers :: bool

text \<open>
  The loop of \<^verbatim>\<open>parseLineMarkers\<close> over \<^verbatim>\<open>line.matchAll(COLOR_MARKER_REGEX)\<close>. The
  iterator looks for the next match from the end of the previous one, one position at
  a time; \<open>pre\<close> is the text between \<^verbatim>\<open>cursor\<close> and the position being tried (the
  \<^verbatim>\<open>prefix\<close> of the next match, or the \<^verbatim>\<open>suffix\<close> when there is none). The state is
  the loop's variables \<^verbatim>\<open>cleanLine\<close>, \<^verbatim>\<open>cleanIndex\<close>, \<^verbatim>\<open>markers\<close>, \<^verbatim>\<open>hadMarkers\<close>.
\<close>

record parseState =
  ps_cleanLine :: jstring
  ps_cleanIndex :: nat
  ps_markers :: "ParsedMarker list"
  ps_hadMarkers :: bool

definition onMarkerMatch :: "segmenter \<Rightarrow> jstring \<Rightarrow> jstring \<Rightarrow> jstring \<Rightarrow> parseState \<Rightarrow> parseState" where
  "onMarkerMatch seg prefix group1 group2 st =
     (let rawKey = toLowerCase group1;
          rawValue = trim group2;
          cleanIndex' = ps_cleanIndex st + length (splitGraphemes seg prefix);
          st' = st\<lparr>ps_cleanLine := ps_cleanLine st @ prefix,
                   ps_cleanIndex := cleanIndex',
                   ps_hadMarkers := True\<rparr>
      in if rawKey \<noteq> js ''bg'' \<and> rawKey \<noteq> js ''stroke'' \<and> rawKey \<noteq> js ''color'' then st'
         else if \<not> isSafeColorValue rawValue then st'
         else st'\<lparr>ps_markers := ps_markers st' @
                  [\<lparr>key = rawKey, val = rawValue, index = cleanIndex'\<rparr>]\<rparr>)"

lemma dropWhile_Cons_shorter:
  "dropWhile P xs = y # ys \<Longrightarrow> length ys < length xs"
proof -
  assume "dropWhile P xs = y # ys"
  then have "length (dropWhile P xs) = Suc (length ys)" by simp
  moreover have "length (dropWhile P xs) \<le> length xs" by (rule length_dropWhile_le)
  ultimately show ?thesis by linarith
qed

lemma matchMarkerAt_SomeD:
  "matchMarkerAt s = Some (k, g, rest) \<Longrightarrow>
     \<exists>b s1 h s2 cl s3 x. s = b # s1 \<and> dropWhile isJsSpace s1 = h # s2 \<and>
        dropWhile isJsSpace (dropWhile isAsciiLetter s2) = cl # s3 \<and>
        dropWhile (\<lambda>c. c \<noteq> c_rbrace) s3 = x # rest"
  by (auto simp: matchMarkerAt_def Let_def split: list.splits if_splits)

lemma matchMarkerAt_shorter:
  "matchMarkerAt s = Some (k, g, rest) \<Longrightarrow> length rest < length s"
proof -
  note dw = dropWhile_Cons_shorter
  assume "matchMarkerAt s = Some (k, g, rest)"
  then obtain b s1 h s2 cl s3 x where s: "s = b # s1"
    and s2: "dropWhile isJsSpace s1 = h # s2"
    and s3: "dropWhile isJsSpace (dropWhile isAsciiLetter s2) = cl # s3"
    and s4: "dropWhile (\<lambda>c. c \<noteq> c_rbrace) s3 = x # rest"
    using matchMarkerAt_SomeD by blast
  have "length rest < length s3" using dw [OF s4] .
  also have "length s3 < length (dropWhile isAsciiLetter s2)" using dw [OF s3] .
  also have "\<dots> \<le> length s2" by (rule length_dropWhile_le)
  also have "length s2 < length s1" using dw [OF s2] .
  finally show ?thesis using s by simp
qed

function parseLoop :: "segmenter \<Rightarrow> jstring \<Rightarrow> jstring \<Rightarrow> parseState \<Rightarrow> parseState" where
  "parseLoop seg pre [] st = st\<lparr>ps_cleanLine := ps_cleanLine st @ pre\<rparr>"
| "parseLoop seg pre (c # cs) st =
     (case matchMarkerAt (c # cs) of
        None \<Rightarrow> parseLoop seg (pre @ [c]) cs st
      | Some (group1, group2, rest) \<Rightarrow>
          parseLoop seg [] rest (onMarkerMatch seg pre group1 group2 st))"
  by pat_completeness auto
termination
  by (relation "measure (\<lambda>(seg, pre, s, st). length s)")
     (auto dest: matchMarkerAt_shorter)

definition parseLineMarkers :: "segmenter \<Rightarrow> jstring \<Rightarrow> ParsedLineMarkers" where
  "parseLineMarkers seg line =
     (let st = parseLoop seg [] line
                 \<lparr>ps_cleanLine = [], ps_cleanIndex = 0, ps_markers = [], ps_hadMarkers = False\<rparr>
      in \<lparr>rawLine = line, cleanLine = ps_cleanLine st, markers = ps_markers st,
          hadMarkers = ps_hadMarkers st\<rparr>)"

section \<open>Document parsing and mode detection\<close>

text \<open>
  \<^verbatim>\<open>autoFormat\<close> and \<^verbatim>\<open>render\<close> start with the same statements: remove the zero-width
  code units, split on newlines, drop one trailing carriage return of each line, parse
  the markers of each line, and detect the mode once on the clean lines joined by
  newlines. The mode is then passed to every classifier call of that invocation.
\<close>

definition parseDocument :: "segmenter \<Rightarrow> jstring \<Rightarrow> ParsedLineMarkers list" where
  "parseDocument seg ascii =
     map (\<lambda>line. parseLineMarkers seg (stripTrailingCR line))
       (splitOn c_newline (removeZeroWidth ascii))"

definition documentRichMode :: "segmenter \<Rightarrow> jstring \<Rightarrow> bool" where
  "documentRichMode seg ascii =
     detectRichMode (joinWith [c_newline] (map cleanLine (parseDocument seg ascii)))"

section \<open>Rectangular box detector and box style resolution\<close>

text \<open>
  A row is the list of graphemes of a clean line; \<^verbatim>\<open>row[i] ?? ''\<close> reads the empty string
  outside the row. The corner and edge tests compare a whole grapheme with a
  one-character string.
\<close>

definition gAt :: "jstring list \<Rightarrow> nat \<Rightarrow> jstring" where
  "gAt row i = (if i < length row then row ! i else [])"

definition isTopLeftCorner :: "jstring \<Rightarrow> bool" where
  "isTopLeftCorner char = (char = [c_plus] \<or> char = [g_down_right])"

definition isTopRightCorner :: "jstring \<Rightarrow> bool" where
  "isTopRightCorner char = (char = [c_plus] \<or> char = [g_down_left])"

definition isBottomLeftCorner :: "jstring \<Rightarrow> bool" where
  "isBottomLeftCorner char = (char = [c_plus] \<or> char = [g_up_right])"

definition isBottomRightCorner :: "jstring \<Rightarrow> bool" where
  "isBottomRightCorner char = (char = [c_plus] \<or> char = [g_up_left])"

definition isHorizontalBoxEdge :: "jstring \<Rightarrow> bool" where
  "isHorizontalBoxEdge char = (char = [c_minus] \<or> char = [g_horz])"

definition isVerticalBoxEdge :: "jstring \<Rightarrow> bool" where
  "isVerticalBoxEdge char =
     (char = [c_bar] \<or> char = [g_vert] \<or> char = [c_plus] \<or> char = [g_vert_right]
      \<or> char = [g_vert_left])"

text \<open>
  \<^verbatim>\<open>DetectedBox\<close>. The fields \<^verbatim>\<open>top\<close>, \<^verbatim>\<open>right\<close>, \<^verbatim>\<open>bottom\<close>, \<^verbatim>\<open>left\<close> carry the prefix
  \<open>box_\<close> (\<open>top\<close> is a constant of HOL).
\<close>

record DetectedBox =
  box_top :: nat
  box_right :: nat
  box_bottom :: nat
  box_left :: nat
  area :: nat

text \<open>
  The four nested \<^verbatim>\<open>for\<close> loops of \<^verbatim>\<open>detectRectangularBoxes\<close>, each with its
  \<^verbatim>\<open>continue\<close> guards, in the order in which the boxes are pushed (\<open>tp\<close>, \<open>l\<close>, \<open>r\<close>
  are the loop variables \<^verbatim>\<open>top\<close>, \<^verbatim>\<open>left\<close>, \<^verbatim>\<open>right\<close>).
\<close>

definition boxesAt :: "jstring list list \<Rightarrow> nat \<Rightarrow> nat \<Rightarrow> nat \<Rightarrow> DetectedBox list" where
  "boxesAt graphemeRows tp l r =
     concat (map (\<lambda>bottom.
        let bottomRow = graphemeRows ! bottom in
        if \<not> isBottomLeftCorner (gAt bottomRow l) then []
        else if \<not> isBottomRightCorner (gAt bottomRow r) then []
        else if \<not> list_all (\<lambda>x. isHorizontalBoxEdge (gAt bottomRow x)) [l + 1..<r] then []
        else if \<not> list_all (\<lambda>y. isVerticalBoxEdge (gAt (graphemeRows ! y) l) \<and>
                                 isVerticalBoxEdge (gAt (graphemeRows ! y) r)) [tp + 1..<bottom]
          then []
        else [\<lparr>box_top = tp, box_right = r, box_bottom = bottom, box_left = l,
               area = (r - l) * (bottom - tp)\<rparr>])
       [tp + 2..<length graphemeRows])"

definition detectRectangularBoxes :: "segmenter \<Rightarrow> jstring list \<Rightarrow> DetectedBox list" where
  "detectRectangularBoxes seg lines =
     (let graphemeRows = map (splitGraphemes seg) lines in
      concat (map (\<lambda>tp.
        let topRow = graphemeRows ! tp in
        concat (map (\<lambda>l.
          if \<not> isTopLeftCorner (topRow ! l) then []
          else concat (map (\<lambda>r.
            if \<not> isTopRightCorner (topRow ! r) then []
            else if \<not> list_all (\<lambda>x. isHorizontalBoxEdge (gAt topRow x)) [l + 1..<r] then []
            else boxesAt graphemeRows tp l r)
            [l + 2..<length topRow]))
          [0..<length topRow]))
        [0..<length graphemeRows]))"

text \<open>
  \<^verbatim>\<open>findSmallestEnclosingBox\<close>: filter, sort by area (\<^verbatim>\<open>Array.prototype.sort\<close> is
  stable, as \<open>sort_key\<close> is), take the first element or \<^verbatim>\<open>null\<close>.
\<close>

definition findSmallestEnclosingBox :: "DetectedBox list \<Rightarrow> nat \<Rightarrow> nat \<Rightarrow> DetectedBox option" where
  "findSmallestEnclosingBox boxes row col =
     (case sort_key area
             (filter (\<lambda>box. row > box_top box \<and> row < box_bottom box \<and>
                             col > box_left box \<and> col < box_right box) boxes) of
        [] \<Rightarrow> None
      | b # _ \<Rightarrow> Some b)"

text \<open>
  \<^verbatim>\<open>boxStyles\<close> is a \<^verbatim>\<open>Map\<close> from the id string \<^verbatim>\<open>top:left:bottom:right\<close> to a style. It is
  an association list in insertion order, keyed by the four numbers of the id;
  \<^verbatim>\<open>Map.set\<close> on a present key keeps the key's position.
\<close>

record BoxStyle =
  bg :: "jstring option"
  stroke :: "jstring option"

type_synonym boxId = "nat \<times> nat \<times> nat \<times> nat"
type_synonym boxStyles = "(boxId \<times> BoxStyle) list"

definition boxIdOf :: "DetectedBox \<Rightarrow> boxId" where
  "boxIdOf box = (box_top box, box_left box, box_bottom box, box_right box)"

fun mapSet :: "boxStyles \<Rightarrow> boxId \<Rightarrow> BoxStyle \<Rightarrow> boxStyles" where
  "mapSet [] k v = [(k, v)]"
| "mapSet ((k', v') # rest) k v =
     (if k' = k then (k, v) # rest else (k', v') # mapSet rest k v)"

text \<open>The body of \<^verbatim>\<open>line.markers.forEach\<close> in \<^verbatim>\<open>render\<close>, for one marker of row \<open>row\<close>.\<close>

definition applyStyleMarker :: "DetectedBox list \<Rightarrow> nat \<Rightarrow> boxStyles \<Rightarrow> ParsedMarker \<Rightarrow> boxStyles" where
  "applyStyleMarker boxes row styles marker =
     (if key marker \<noteq> js ''bg'' \<and> key marker \<noteq> js ''stroke'' then styles
      else case findSmallestEnclosingBox boxes row (index marker) of
        None \<Rightarrow> styles
      | Some box \<Rightarrow>
          let id = boxIdOf box;
              style = (case map_of styles id of Some s \<Rightarrow> s
                        | None \<Rightarrow> \<lparr>bg = None, stroke = None\<rparr>);
              style1 = (if key marker = js ''bg'' then style\<lparr>bg := Some (val marker)\<rparr>
                        else style);
              style2 = (if key marker = js ''stroke'' then style1\<lparr>stroke := Some (val marker)\<rparr>
                        else style1)
          in mapSet styles id style2)"

definition collectBoxStyles :: "DetectedBox list \<Rightarrow> ParsedLineMarkers list \<Rightarrow> boxStyles" where
  "collectBoxStyles boxes parsedLines =
     foldl (\<lambda>styles (row, line). foldl (applyStyleMarker boxes row) styles (markers line))
       [] (zip [0..<length parsedLines] parsedLines)"

text \<open>
  Strict enclosure of a position by a box, as the style resolution states it: the row
  strictly between top and bottom, the column strictly between left and right.
\<close>

definition encloses :: "DetectedBox \<Rightarrow> nat \<Rightarrow> nat \<Rightarrow> bool" where
  "encloses box row col =
     (box_top box < row \<and> row < box_bottom box \<and> box_left box < col \<and> col < box_right box)"

section \<open>The renderer instance and the grid\<close>

text \<open>
  An instance holds the cell size, the stroke settings and the segmenter found by the
  constructor. Numbers are rationals: with the default cell size every coordinate the
  renderer computes is an integer or a half, which IEEE doubles represent exactly.
  For a cell size that doubles do not represent exactly the source compares rounded
  values: with a cell width of 10.1 the centres of two cells two columns apart can
  differ by 20.199999999999996, which is below the relaxed tolerance 20.2 of
  \<^verbatim>\<open>findVerticalNeighbor\<close>, while the exact difference 20.2 is not. The model agrees
  with the source for cell sizes such as the default; the properties that evaluate the
  renderer take the default cell size.
\<close>

record SmoothScrub =
  cw :: rat
  ch :: rat
  color :: jstring
  strokeWidth :: rat
  segmenter :: segmenter

record SmoothScrubOptions =
  cellWidth :: "rat option"
  cellHeight :: "rat option"
  optColor :: "jstring option"
  optStrokeWidth :: "rat option"

text \<open>\<^verbatim>\<open>options.cellWidth || 12\<close>: a missing or zero number and an empty string are falsy.\<close>

definition orDefault :: "rat option \<Rightarrow> rat \<Rightarrow> rat" where
  "orDefault v d = (case v of None \<Rightarrow> d | Some n \<Rightarrow> if n = 0 then d else n)"

definition construct :: "SmoothScrubOptions \<Rightarrow> segmenter \<Rightarrow> SmoothScrub" where
  "construct options intlSegmenter =
     \<lparr>cw = orDefault (cellWidth options) 12,
      ch = orDefault (cellHeight options) 24,
      color = (case optColor options of None \<Rightarrow> js ''#333''
               | Some c \<Rightarrow> if c = [] then js ''#333'' else c),
      strokeWidth = orDefault (optStrokeWidth options) (5 / 2),
      segmenter = intlSegmenter\<rparr>"

text \<open>
  \<^verbatim>\<open>GridCell\<close>. The fields carry the prefix \<open>cell_\<close>; \<^verbatim>\<open>partOfStrokedBox\<close> is \<open>False\<close>
  where the source leaves it undefined.
\<close>

record GridCell =
  cell_char :: jstring
  cell_x :: rat
  cell_y :: rat
  cell_cx :: rat
  cell_cy :: rat
  cell_w :: rat
  cell_cols :: nat
  partOfStrokedBox :: bool

type_synonym grid = "GridCell list list"

text \<open>
  The loop \<^verbatim>\<open>graphemes.forEach\<close> of one line: the cells of the row and the final
  \<^verbatim>\<open>currentX\<close>.
\<close>

fun buildCells :: "SmoothScrub \<Rightarrow> bool \<Rightarrow> rat \<Rightarrow> rat \<Rightarrow> jstring list \<Rightarrow> GridCell list \<times> rat" where
  "buildCells this isRichMode y currentX [] = ([], currentX)"
| "buildCells this isRichMode y currentX (grapheme # rest) =
     (let widthUnits = getDisplayWidth grapheme isRichMode;
          pxWidth = of_nat widthUnits * cw this;
          cell = \<lparr>cell_char = grapheme, cell_x = currentX, cell_y = y,
                  cell_cx = currentX + pxWidth / 2, cell_cy = y + ch this / 2,
                  cell_w = pxWidth, cell_cols = widthUnits, partOfStrokedBox = False\<rparr>
      in case buildCells this isRichMode y (currentX + pxWidth) rest of
           (cells, endX) \<Rightarrow> (cell # cells, endX))"

definition buildRow :: "SmoothScrub \<Rightarrow> bool \<Rightarrow> nat \<Rightarrow> jstring \<Rightarrow> GridCell list \<times> rat" where
  "buildRow this isRichMode r line =
     buildCells this isRichMode (of_nat r * ch this + ch this) (cw this)
       (splitGraphemes (segmenter this) line)"

definition buildGrid :: "SmoothScrub \<Rightarrow> bool \<Rightarrow> jstring list \<Rightarrow> grid" where
  "buildGrid this isRichMode lines =
     map (\<lambda>(r, line). fst (buildRow this isRichMode r line)) (zip [0..<length lines] lines)"

definition maxPixelW :: "SmoothScrub \<Rightarrow> bool \<Rightarrow> jstring list \<Rightarrow> rat" where
  "maxPixelW this isRichMode lines =
     foldl (\<lambda>m (r, line). let currentX = snd (buildRow this isRichMode r line)
                           in if currentX > m then currentX else m)
       0 (zip [0..<length lines] lines)"

text \<open>
  Tagging the perimeter cells of every box that has a stroke style. \<^verbatim>\<open>grid[r]?.[c]\<close>
  guards both indices.
\<close>

definition tagCell :: "grid \<Rightarrow> nat \<Rightarrow> nat \<Rightarrow> grid" where
  "tagCell g r c =
     (if r < length g \<and> c < length (g ! r)
      then g[r := (g ! r)[c := (g ! r ! c)\<lparr>partOfStrokedBox := True\<rparr>]]
      else g)"

definition tagBox :: "grid \<Rightarrow> boxId \<Rightarrow> grid" where
  "tagBox g bid =
     (case bid of (tp, l, bottom, r) \<Rightarrow>
        let g1 = foldl (\<lambda>g c. tagCell (tagCell g tp c) bottom c) g [l..<r + 1]
        in foldl (\<lambda>g y. tagCell (tagCell g y l) y r) g1 [tp..<bottom + 1])"

definition tagStrokedBoxes :: "grid \<Rightarrow> boxStyles \<Rightarrow> grid" where
  "tagStrokedBoxes g styles =
     foldl (\<lambda>g (id, style).
        case stroke style of None \<Rightarrow> g
        | Some s \<Rightarrow> if s = [] then g else tagBox g id) g styles"

section \<open>Path assembly\<close>

text \<open>
  The path attribute \<^verbatim>\<open>d\<close> is built from the pieces \<^verbatim>\<open>M x,y\<close> and \<^verbatim>\<open>L x,y\<close>. It is
  modelled as the list of these commands: the string is empty exactly when the list is,
  and a line segment is a \<open>LineTo\<close>.
\<close>

datatype pathCmd = MoveTo rat rat | LineTo rat rat

definition canConnectHorizontally :: "bool \<Rightarrow> GridCell \<Rightarrow> GridCell \<Rightarrow> bool" where
  "canConnectHorizontally isRichMode l r =
     (if partOfStrokedBox l \<and> partOfStrokedBox r then False
      else isStructure (cell_char l) isRichMode \<and> isStructure (cell_char r) isRichMode \<and>
           \<bar>cell_x r - (cell_x l + cell_w l)\<bar> < 2)"

text \<open>The inner \<^verbatim>\<open>while\<close> of pass 1, from \<^verbatim>\<open>j\<close>: the line commands and the final \<^verbatim>\<open>j\<close>.\<close>

function lineToRun :: "bool \<Rightarrow> GridCell list \<Rightarrow> nat \<Rightarrow> pathCmd list \<times> nat" where
  "lineToRun isRichMode row j =
     (if j + 1 < length row \<and> canConnectHorizontally isRichMode (row ! j) (row ! (j + 1))
      then (case lineToRun isRichMode row (j + 1) of
              (cmds, j') \<Rightarrow>
                (LineTo (cell_cx (row ! (j + 1))) (cell_cy (row ! (j + 1))) # cmds, j'))
      else ([], j))"
  by pat_completeness auto
termination
  by (relation "measure (\<lambda>(isRichMode, row, j). length row - j)") auto

declare lineToRun.simps [simp del]

lemma lineToRun_bounds:
  "j \<le> snd (lineToRun isRichMode row j) \<and>
   (j + 1 < length row \<and> canConnectHorizontally isRichMode (row ! j) (row ! (j + 1))
      \<longrightarrow> j < snd (lineToRun isRichMode row j))"
proof (induction isRichMode row j rule: lineToRun.induct)
  case (1 isRichMode row j)
  show ?case
  proof (cases "j + 1 < length row \<and>
      canConnectHorizontally isRichMode (row ! j) (row ! (j + 1))")
    case True
    then have "j + 1 \<le> snd (lineToRun isRichMode row (j + 1))" using 1 by blast
    then show ?thesis using True
      by (subst (1 2) lineToRun.simps) (auto split: prod.splits)
  next
    case False
    then show ?thesis by (subst lineToRun.simps) auto
  qed
qed

text \<open>The outer \<^verbatim>\<open>while\<close> of pass 1 for one row, from \<^verbatim>\<open>i\<close>.\<close>

function horizontalPass :: "bool \<Rightarrow> GridCell list \<Rightarrow> nat \<Rightarrow> pathCmd list" where
  "horizontalPass isRichMode row i =
     (if i + 1 < length row then
        (if \<not> canConnectHorizontally isRichMode (row ! i) (row ! (i + 1))
         then horizontalPass isRichMode row (i + 1)
         else (case lineToRun isRichMode row i of
                 (cmds, j) \<Rightarrow>
                   MoveTo (cell_cx (row ! i)) (cell_cy (row ! i)) # cmds @
                   horizontalPass isRichMode row j))
      else [])"
  by pat_completeness auto
termination
proof (relation "measure (\<lambda>(isRichMode, row, i). length row - i)", goal_cases)
  case 1
  show ?case by simp
next
  case 2
  then show ?case by simp
next
  case (3 isRichMode row i cmds j)
  then have "i < snd (lineToRun isRichMode row i)"
    using lineToRun_bounds [of i isRichMode row] by simp
  then show ?case using 3 by (cases "lineToRun isRichMode row i") auto
qed

declare horizontalPass.simps [simp del]

section \<open>Connector run detector\<close>

text \<open>
  A cell of a row is identified by its index in the row: \<^verbatim>\<open>findVerticalNeighbor\<close> returns
  the index of the chosen cell of \<^verbatim>\<open>nextRow\<close> (or \<open>None\<close> for \<^verbatim>\<open>null\<close>), and the identity
  test \<^verbatim>\<open>=== cell\<close> of the source compares this index with the cell's column.
  \<^verbatim>\<open>selectNearest\<close> sorts a copy of the candidates by distance, stably, and takes the
  first.
\<close>

definition selectNearest :: "GridCell \<Rightarrow> GridCell list \<Rightarrow> nat list \<Rightarrow> nat option" where
  "selectNearest currCell nextRow candidates =
     (case sort_key (\<lambda>i. \<bar>cell_cx (nextRow ! i) - cell_cx currCell\<bar>) candidates of
        [] \<Rightarrow> None
      | i # _ \<Rightarrow> Some i)"

definition findVerticalNeighbor :: "SmoothScrub \<Rightarrow> GridCell \<Rightarrow> GridCell list \<Rightarrow> bool \<Rightarrow> nat option" where
  "findVerticalNeighbor this currCell nextRow isRichMode =
     (if \<not> connectsDown (cell_char currCell) isRichMode then None
      else
        let connectedNextRow =
              filter (\<lambda>i. connectsUp (cell_char (nextRow ! i)) isRichMode) [0..<length nextRow];
            tightTolerance = cw this * (1 / 2);
            relaxedTolerance = cw this * 2;
            tightCandidates =
              filter (\<lambda>i. \<bar>cell_cx (nextRow ! i) - cell_cx currCell\<bar> < tightTolerance)
                connectedNextRow;
            relaxedCandidates =
              filter (\<lambda>i. \<bar>cell_cx (nextRow ! i) - cell_cx currCell\<bar> < relaxedTolerance)
                connectedNextRow
        in case selectNearest currCell nextRow tightCandidates of
             Some i \<Rightarrow> Some i
           | None \<Rightarrow> selectNearest currCell nextRow relaxedCandidates)"

text \<open>\<^verbatim>\<open>/^[A-Za-z0-9]$/\<close>: the string is exactly one ASCII letter or digit.\<close>

definition isAsciiWordChar :: "jstring \<Rightarrow> bool" where
  "isAsciiWordChar char =
     (case char of [c] \<Rightarrow> isAsciiLetter c \<or> isDigit c | _ \<Rightarrow> False)"

text \<open>\<^verbatim>\<open>row[i]?.char ?? ''\<close> at a column given as an integer (\<^verbatim>\<open>colIndex - 1\<close> may be -1).\<close>

definition charOrEmpty :: "GridCell list \<Rightarrow> int \<Rightarrow> jstring" where
  "charOrEmpty row i =
     (if 0 \<le> i \<and> nat i < length row then cell_char (row ! nat i) else [])"

definition isAsciiVConnector :: "SmoothScrub \<Rightarrow> GridCell list \<Rightarrow> nat \<Rightarrow> nat \<Rightarrow> grid \<Rightarrow> bool" where
  "isAsciiVConnector this row colIndex rowIndex g =
     (let leftChar = charOrEmpty row (int colIndex - 1);
          rightChar = charOrEmpty row (int colIndex + 1);
          hasHorizontalStructuralNeighbor =
            (testClass [c_minus, c_plus] leftChar \<or> testClass [c_minus, c_plus] rightChar);
          hasVerticalNeighborAbove =
            (rowIndex > 0 \<and>
             list_ex (\<lambda>prevCell.
                 testClass [c_bar, c_plus] (cell_char prevCell) \<and>
                 findVerticalNeighbor this prevCell row False = Some colIndex)
               (g ! (rowIndex - 1)));
          surroundedByWordChars = (isAsciiWordChar leftChar \<and> isAsciiWordChar rightChar)
      in hasHorizontalStructuralNeighbor \<or> hasVerticalNeighborAbove \<or> \<not> surroundedByWordChars)"

record VerticalRun =
  run_cx :: rat
  run_cells :: "GridCell list"

text \<open>
  The \<^verbatim>\<open>while\<close> loop that extends a run downwards from \<^verbatim>\<open>currentCell\<close> in row
  \<^verbatim>\<open>currentRowIndex\<close>: the cells pushed after the first.
\<close>

function followRun :: "SmoothScrub \<Rightarrow> grid \<Rightarrow> bool \<Rightarrow> GridCell \<Rightarrow> nat \<Rightarrow> GridCell list" where
  "followRun this g isRichMode currentCell currentRowIndex =
     (if currentRowIndex + 1 < length g then
        (case findVerticalNeighbor this currentCell (g ! (currentRowIndex + 1)) isRichMode of
           None \<Rightarrow> []
         | Some n \<Rightarrow>
             let nextCell = g ! (currentRowIndex + 1) ! n in
             if partOfStrokedBox currentCell \<and> partOfStrokedBox nextCell then []
             else nextCell # followRun this g isRichMode nextCell (currentRowIndex + 1))
      else [])"
  by pat_completeness auto
termination
  by (relation "measure (\<lambda>(this, g, isRichMode, c, r). length g - r)") auto

declare followRun.simps [simp del]

text \<open>The body of \<^verbatim>\<open>row.forEach\<close> in \<^verbatim>\<open>detectVerticalRuns\<close>: the runs started at one cell.\<close>

definition runsFrom :: "SmoothScrub \<Rightarrow> grid \<Rightarrow> bool \<Rightarrow> nat \<Rightarrow> nat \<Rightarrow> VerticalRun list" where
  "runsFrom this g isRichMode rowIndex colIndex =
     (let row = g ! rowIndex; cell = row ! colIndex in
      if \<not> connectsDown (cell_char cell) isRichMode \<and> \<not> connectsUp (cell_char cell) isRichMode
        then []
      else if \<not> isRichMode \<and> cell_char cell = [c_v] \<and>
              \<not> isAsciiVConnector this row colIndex rowIndex g
        then []
      else
        let hasIncoming =
              (rowIndex > 0 \<and>
               list_ex (\<lambda>prevColIndex.
                   let prevRow = g ! (rowIndex - 1); prevCell = prevRow ! prevColIndex in
                   if \<not> isRichMode \<and> cell_char prevCell = [c_v] \<and>
                      \<not> isAsciiVConnector this prevRow prevColIndex (rowIndex - 1) g
                   then False
                   else findVerticalNeighbor this prevCell row isRichMode = Some colIndex)
                 [0..<length (g ! (rowIndex - 1))])
        in if hasIncoming then []
           else
             let cells = cell # followRun this g isRichMode cell rowIndex in
             if length cells > 1 then [\<lparr>run_cx = cell_cx (hd cells), run_cells = cells\<rparr>]
             else [])"

definition detectVerticalRuns :: "SmoothScrub \<Rightarrow> grid \<Rightarrow> bool \<Rightarrow> VerticalRun list" where
  "detectVerticalRuns this g isRichMode =
     concat (map (\<lambda>rowIndex.
        concat (map (\<lambda>colIndex. runsFrom this g isRichMode rowIndex colIndex)
                 [0..<length (g ! rowIndex)]))
       [0..<length g])"

text \<open>Pass 2: the commands appended for one vertical run.\<close>

definition verticalRunPath :: "SmoothScrub \<Rightarrow> bool \<Rightarrow> VerticalRun \<Rightarrow> pathCmd list" where
  "verticalRunPath this isRichMode run =
     (let firstCell = hd (run_cells run);
          lastCell = last (run_cells run);
          startY = (if shouldStartAtCenter (cell_char firstCell) isRichMode
                    then cell_cy firstCell else cell_cy firstCell - ch this / 2);
          endY = (if shouldEndAtCenter (cell_char lastCell) isRichMode
                  then cell_cy lastCell else cell_cy lastCell + ch this / 2)
      in [MoveTo (run_cx run) startY, LineTo (run_cx run) endY] @
         concat (map (\<lambda>k.
            let midY = cell_cy (run_cells run ! k) in
            if \<bar>midY - startY\<bar> > 1 / 100 \<and> \<bar>midY - endY\<bar> > 1 / 100
            then [MoveTo (run_cx run) midY, LineTo (run_cx run) midY] else [])
           [1..<length (run_cells run) - 1]))"

section \<open>Zones\<close>

record Wall =
  wall_i :: nat
  wall_x :: rat

record Zone =
  zone_start :: nat
  zone_end :: nat
  leftX :: rat
  rightX :: rat

text \<open>\<^verbatim>\<open>grid[r]?.[i]?.char\<close> with integer indices: \<open>None\<close> is \<^verbatim>\<open>undefined\<close>.\<close>

definition charAt :: "grid \<Rightarrow> int \<Rightarrow> int \<Rightarrow> jstring option" where
  "charAt g r i =
     (if 0 \<le> r \<and> nat r < length g \<and> 0 \<le> i \<and> nat i < length (g ! nat r)
      then Some (cell_char (g ! nat r ! nat i)) else None)"

text \<open>The wall test of pass 3 for the cell at column \<open>i\<close> of row \<open>rowIndex\<close>.\<close>

definition isWallCell :: "grid \<Rightarrow> bool \<Rightarrow> nat \<Rightarrow> nat \<Rightarrow> bool" where
  "isWallCell g isRichMode rowIndex i =
     (let cell = g ! rowIndex ! i;
          isWall = (isVert (cell_char cell) isRichMode \<or> isCorner (cell_char cell))
      in if \<not> isRichMode \<and> cell_char cell = [c_plus] \<and> \<not> isWall then
           let leftChar = charAt g (int rowIndex) (int i - 1);
               rightChar = charAt g (int rowIndex) (int i + 1);
               upChar = charAt g (int rowIndex - 1) (int i);
               downChar = charAt g (int rowIndex + 1) (int i);
               hasHorizontalBox =
                 (leftChar = Some [c_minus] \<or> leftChar = Some [c_plus] \<or>
                  rightChar = Some [c_minus] \<or> rightChar = Some [c_plus]);
               hasVerticalBox =
                 (upChar = Some [c_bar] \<or> upChar = Some [c_plus] \<or>
                  downChar = Some [c_bar] \<or> downChar = Some [c_plus])
           in hasHorizontalBox \<or> hasVerticalBox
         else isWall)"

definition rowWalls :: "grid \<Rightarrow> bool \<Rightarrow> nat \<Rightarrow> Wall list" where
  "rowWalls g isRichMode rowIndex =
     map (\<lambda>i. \<lparr>wall_i = i, wall_x = cell_x (g ! rowIndex ! i)\<rparr>)
       (filter (isWallCell g isRichMode rowIndex) [0..<length (g ! rowIndex)])"

text \<open>
  The zones of one row: the whole row when there are fewer than two walls, one zone per
  pair of neighbouring walls otherwise. \<open>width\<close> is the width of the drawing.
\<close>

definition rowZones :: "SmoothScrub \<Rightarrow> rat \<Rightarrow> GridCell list \<Rightarrow> Wall list \<Rightarrow> Zone list" where
  "rowZones this width row walls =
     (if length walls < 2
      then [\<lparr>zone_start = 0, zone_end = length row, leftX = cw this,
              rightX = width - cw this\<rparr>]
      else map (\<lambda>k.
             let w1 = walls ! k; w2 = walls ! (k + 1);
                 lx = cell_x (row ! wall_i w1) + cell_w (row ! wall_i w1);
                 rx = cell_x (row ! wall_i w2)
             in \<lparr>zone_start = wall_i w1 + 1, zone_end = wall_i w2, leftX = lx, rightX = rx\<rparr>)
           [0..<length walls - 1])"

section \<open>The render pipeline\<close>

text \<open>
  \<^verbatim>\<open>render\<close> throws when there is no DOM; otherwise it builds the drawing. The result
  holds the parts of the drawing that are modelled: the size, the box
  styles, the path commands and the zones of every row. The text nodes laid out inside
  the zones are not modelled.
\<close>

datatype error = NoDocument | RangeError

record Drawing =
  dr_width :: rat
  dr_height :: rat
  dr_boxStyles :: boxStyles
  dr_d :: "pathCmd list"
  dr_zones :: "Zone list list"

text \<open>The grid of \<^verbatim>\<open>render\<close>: built from the clean lines, then tagged.\<close>

definition renderGrid :: "SmoothScrub \<Rightarrow> jstring \<Rightarrow> grid" where
  "renderGrid this ascii =
     (let parsedLines = parseDocument (segmenter this) ascii;
          lines = map cleanLine parsedLines;
          isRichMode = documentRichMode (segmenter this) ascii;
          boxes = detectRectangularBoxes (segmenter this) lines;
          styles = collectBoxStyles boxes parsedLines
      in tagStrokedBoxes (buildGrid this isRichMode lines) styles)"

definition render :: "SmoothScrub \<Rightarrow> bool \<Rightarrow> jstring \<Rightarrow> error + Drawing" where
  "render this hasDocument ascii =
     (if \<not> hasDocument then Inl NoDocument
      else
        let parsedLines = parseDocument (segmenter this) ascii;
            lines = map cleanLine parsedLines;
            isRichMode = documentRichMode (segmenter this) ascii;
            boxes = detectRectangularBoxes (segmenter this) lines;
            styles = collectBoxStyles boxes parsedLines;
            g = renderGrid this ascii;
            width = maxPixelW this isRichMode lines + cw this;
            height = of_nat (length lines) * ch this + ch this * 2;
            d1 = concat (map (\<lambda>row. horizontalPass isRichMode row 0) g);
            d2 = concat (map (verticalRunPath this isRichMode)
                           (detectVerticalRuns this g isRichMode));
            zones = map (\<lambda>rowIndex.
                       rowZones this width (g ! rowIndex) (rowWalls g isRichMode rowIndex))
                     [0..<length g]
        in Inr \<lparr>dr_width = width, dr_height = height, dr_boxStyles = styles,
                dr_d = d1 @ d2, dr_zones = zones\<rparr>)"

text \<open>The instance built by \<^verbatim>\<open>new SmoothScrub()\<close> on a host with the given segmenter.\<close>

definition defaultScrub :: "segmenter \<Rightarrow> SmoothScrub" where
  "defaultScrub intlSegmenter =
     construct \<lparr>cellWidth = None, cellHeight = None, optColor = None,
                optStrokeWidth = None\<rparr> intlSegmenter"

text \<open>
  A segmenter splits a string by character when its segments are the single code units
  of the string. \<^verbatim>\<open>Array.from\<close> does so on every string without surrogate pairs.
\<close>

definition splitsByChar :: "segmenter \<Rightarrow> jstring \<Rightarrow> bool" where
  "splitsByChar seg s = (splitGraphemes seg s = map (\<lambda>c. [c]) s)"

section \<open>Marker injection\<close>

definition markerText :: "ParsedMarker \<Rightarrow> jstring" where
  "markerText marker = [c_lbrace, c_hash] @ key marker @ [c_colon] @ val marker @ [c_rbrace]"

text \<open>
  The \<^verbatim>\<open>forEach\<close> of \<^verbatim>\<open>injectMarkersIntoLine\<close>: \<^verbatim>\<open>graphemes.splice(insertAt, 0, markerText)\<close>
  with \<^verbatim>\<open>insertAt\<close> clamped to the current length of the array.
\<close>

fun insertMarkers :: "jstring list \<Rightarrow> nat \<Rightarrow> ParsedMarker list \<Rightarrow> jstring list" where
  "insertMarkers graphemes offset [] = graphemes"
| "insertMarkers graphemes offset (marker # rest) =
     (let insertAt = min (length graphemes) (index marker + offset)
      in insertMarkers
           (take insertAt graphemes @ [markerText marker] @ drop insertAt graphemes)
           (offset + 1) rest)"

definition injectMarkersIntoLine :: "segmenter \<Rightarrow> jstring \<Rightarrow> ParsedMarker list \<Rightarrow> jstring" where
  "injectMarkersIntoLine seg cleanLine' markers' =
     (if markers' = [] then cleanLine'
      else concat (insertMarkers (splitGraphemes seg cleanLine') 0 (sort_key index markers')))"

section \<open>Auto-format normalizer\<close>

text \<open>
  \<^verbatim>\<open>String.prototype.repeat\<close> throws a \<^verbatim>\<open>RangeError\<close> on a negative count; it is the only
  operation of \<^verbatim>\<open>autoFormat\<close> that can throw, so \<^verbatim>\<open>autoFormat\<close> returns an error or a
  string.
\<close>

definition jsRepeat :: "jstring \<Rightarrow> int \<Rightarrow> error + jstring" where
  "jsRepeat s n = (if n < 0 then Inl RangeError else Inr (concat (replicate (nat n) s)))"

definition bindE :: "error + 'a \<Rightarrow> ('a \<Rightarrow> error + 'b) \<Rightarrow> error + 'b" where
  "bindE r f = (case r of Inl e \<Rightarrow> Inl e | Inr v \<Rightarrow> f v)"

text \<open>\<^verbatim>\<open>xs.map(f)\<close> where \<^verbatim>\<open>f\<close> may throw: the first exception ends the map.\<close>

fun mapE :: "('a \<Rightarrow> error + 'b) \<Rightarrow> 'a list \<Rightarrow> error + 'b list" where
  "mapE f [] = Inr []"
| "mapE f (x # xs) = bindE (f x) (\<lambda>y. bindE (mapE f xs) (\<lambda>ys. Inr (y # ys)))"

text \<open>
  \<^verbatim>\<open>blocks\<close> and \<^verbatim>\<open>blockMeta\<close> are filled by the same pushes, so a block is one list of
  pairs of a line and its parse result. \<open>collectBlocks\<close> is the \<^verbatim>\<open>forEach\<close> over the
  parsed lines followed by the final push of the current block.
\<close>

type_synonym block = "(jstring \<times> ParsedLineMarkers) list"

definition blankMeta :: ParsedLineMarkers where
  "blankMeta = \<lparr>rawLine = [], cleanLine = [], markers = [], hadMarkers = False\<rparr>"

definition pushCurrent :: "block list \<Rightarrow> block \<Rightarrow> block list" where
  "pushCurrent blocks currentBlock =
     (if currentBlock \<noteq> [] then blocks @ [currentBlock] else blocks)"

fun collectBlocks :: "ParsedLineMarkers list \<Rightarrow> block list \<Rightarrow> block \<Rightarrow> block list" where
  "collectBlocks [] blocks currentBlock = pushCurrent blocks currentBlock"
| "collectBlocks (parsedLine # rest) blocks currentBlock =
     (let line = cleanLine parsedLine in
      if trim line = []
      then collectBlocks rest (pushCurrent blocks currentBlock @ [[([], blankMeta)]]) []
      else collectBlocks rest blocks (currentBlock @ [(line, parsedLine)]))"

text \<open>\<^verbatim>\<open>/^\s+[|+]\s*$/\<close>.\<close>

definition isConnectorStub :: "jstring \<Rightarrow> bool" where
  "isConnectorStub line =
     (takeWhile isJsSpace line \<noteq> [] \<and>
      (case dropWhile isJsSpace line of
         [] \<Rightarrow> False
       | c # rest \<Rightarrow> (c = c_bar \<or> c = c_plus) \<and> list_all isJsSpace rest))"

definition JUNCTION_CHARS :: "uchar list" where
  "JUNCTION_CHARS = [c_plus, g_down_right, g_down_left, g_up_right, g_up_left,
     g_vert_right, g_vert_left, g_down_horz, g_up_horz, g_cross]"

text \<open>
  Every \<^verbatim>\<open>return\<close> of the per-line callback re-injects the markers when the line had
  any.
\<close>

definition finishLine :: "segmenter \<Rightarrow> ParsedLineMarkers \<Rightarrow> jstring \<Rightarrow> jstring" where
  "finishLine seg lineMeta nextLine =
     (if hadMarkers lineMeta then injectMarkersIntoLine seg nextLine (markers lineMeta)
      else nextLine)"

definition centeredContentOf :: "jstring \<Rightarrow> jstring option" where
  "centeredContentOf trimmedMiddle =
     (if trimmedMiddle \<noteq> [] \<and> hd trimmedMiddle = c_caret \<and> last trimmedMiddle = c_caret \<and>
         length trimmedMiddle > 2 then Some trimmedMiddle
      else if trimmedMiddle \<noteq> [] \<and> hd trimmedMiddle = c_caret \<and> length trimmedMiddle > 1 \<and>
         trimmedMiddle \<noteq> [c_caret, c_caret] then Some trimmedMiddle
      else None)"

text \<open>
  The callback of \<^verbatim>\<open>lineStats.map\<close> formats one line \<open>line\<close> of a block from its
  display width \<open>visW\<close>, its parse result and the block's \<open>maxVisWidth\<close>. It is given in
  four parts, in the order of the source: the centering branch
  (\<^verbatim>\<open>if (centeredContent !== null)\<close>), the fill branch (\<^verbatim>\<open>if (suffix)\<close>), the decisions
  taken once \<^verbatim>\<open>prefix\<close>, \<^verbatim>\<open>middle\<close> and \<^verbatim>\<open>suffix\<close> are known, and the callback itself.
\<close>

definition centerLine :: "segmenter \<Rightarrow> bool \<Rightarrow> nat \<Rightarrow> ParsedLineMarkers \<Rightarrow> jstring \<Rightarrow> jstring \<Rightarrow> jstring \<Rightarrow> jstring \<Rightarrow> error + jstring" where
  "centerLine seg isRichMode maxVisWidth lineMeta indentation prefix suffix centeredContent =
     (let availableWidth =
            int maxVisWidth -
            int (getTextDisplayWidth seg (indentation @ prefix @ suffix) isRichMode);
          contentWidth = int (getTextDisplayWidth seg centeredContent isRichMode);
          totalPadding = max 0 (availableWidth - contentWidth);
          leftPad = totalPadding div 2;
          rightPad = totalPadding - leftPad
      in bindE (jsRepeat [c_space] leftPad) (\<lambda>lp.
         bindE (jsRepeat [c_space] rightPad) (\<lambda>rp.
           Inr (finishLine seg lineMeta
                  (indentation @ prefix @ lp @ centeredContent @ rp @ suffix)))))"

definition fillCharOf :: "jstring \<Rightarrow> jstring \<Rightarrow> jstring \<Rightarrow> uchar" where
  "fillCharOf prefix middle suffix =
     (let coreContent =
            filter (\<lambda>c. \<not> List.member [c_plus, c_v, c_caret, c_lt, c_gt, c_bar] c) middle;
          isStructural =
            (coreContent \<noteq> [] \<and>
             list_all (\<lambda>c. c = c_minus \<or> c = g_horz \<or> c = g_dbl_horz) coreContent);
          isEmptyStructural =
            (middle = [] \<and> testClass JUNCTION_CHARS prefix \<and> testClass JUNCTION_CHARS suffix)
      in if isStructural \<or> isEmptyStructural then
           (if g_dbl_horz \<in> set middle \<or> prefix = [g_dbl_horz] then g_dbl_horz
            else if g_horz \<in> set middle \<or> prefix = [g_horz] then g_horz
            else c_minus)
         else c_space)"

definition fillLine :: "segmenter \<Rightarrow> int \<Rightarrow> ParsedLineMarkers \<Rightarrow> jstring \<Rightarrow> jstring \<Rightarrow> jstring \<Rightarrow> jstring \<Rightarrow> error + jstring" where
  "fillLine seg diff lineMeta indentation prefix middle suffix =
     bindE (jsRepeat [fillCharOf prefix middle suffix] diff) (\<lambda>fill.
       Inr (finishLine seg lineMeta (indentation @ prefix @ middle @ fill @ suffix)))"

definition padLine :: "segmenter \<Rightarrow> bool \<Rightarrow> nat \<Rightarrow> int \<Rightarrow> jstring \<Rightarrow> ParsedLineMarkers \<Rightarrow> jstring \<Rightarrow> jstring \<Rightarrow> jstring \<Rightarrow> jstring \<Rightarrow> error + jstring" where
  "padLine seg isRichMode maxVisWidth diff line lineMeta indentation prefix middle suffix =
     (let hasIndentedStructuralWalls =
            (prefix \<noteq> [] \<and> suffix \<noteq> [] \<and> isStructure prefix isRichMode \<and>
             isStructure suffix isRichMode)
      in if hasIndentedStructuralWalls \<and> diff > 0 \<and> (isRichMode \<or> indentation \<noteq> [])
         then Inr (finishLine seg lineMeta line)
         else
           let centeredContent = centeredContentOf (trim middle)
           in if diff \<le> 0 \<and> centeredContent = None then Inr (finishLine seg lineMeta line)
              else case centeredContent of
                Some content \<Rightarrow>
                  centerLine seg isRichMode maxVisWidth lineMeta indentation prefix suffix content
              | None \<Rightarrow>
                  if suffix \<noteq> []
                  then fillLine seg diff lineMeta indentation prefix middle suffix
                  else Inr (finishLine seg lineMeta line))"

definition formatLine :: "segmenter \<Rightarrow> bool \<Rightarrow> nat \<Rightarrow> jstring \<Rightarrow> nat \<Rightarrow> ParsedLineMarkers \<Rightarrow> error + jstring" where
  "formatLine seg isRichMode maxVisWidth line visW lineMeta =
     (if isConnectorStub line then Inr (finishLine seg lineMeta line)
      else if trim line \<noteq> [] \<and>
              list_all (\<lambda>grapheme. grapheme = [c_space] \<or> isStructure grapheme isRichMode)
                (splitGraphemes seg line)
        then Inr (finishLine seg lineMeta line)
      else
        let diff = int maxVisWidth - int visW;
            indentation = takeWhile isJsSpace line;
            lineWithoutIndentation = drop (length indentation) line;
            firstChar = take 1 lineWithoutIndentation;
            lastChar = (if lineWithoutIndentation = [] then [] else [last lineWithoutIndentation]);
            hasStructuralBoundary =
              (isStructure firstChar isRichMode \<or> isStructure lastChar isRichMode)
        in if \<not> hasStructuralBoundary \<and> c_caret \<notin> set lineWithoutIndentation
           then Inr (finishLine seg lineMeta line)
           else
             let hasPrefix = (lineWithoutIndentation \<noteq> [] \<and>
                              isStructure [hd lineWithoutIndentation] isRichMode);
                 prefix = (if hasPrefix then [hd lineWithoutIndentation] else []);
                 middle1 = (if hasPrefix then tl lineWithoutIndentation
                            else lineWithoutIndentation);
                 hasSuffix = (middle1 \<noteq> [] \<and> isStructure [last middle1] isRichMode);
                 suffix = (if hasSuffix then [last middle1] else []);
                 middle = (if hasSuffix then butlast middle1 else middle1)
             in padLine seg isRichMode maxVisWidth diff line lineMeta indentation prefix middle
                  suffix)"

text \<open>
  The callback of \<^verbatim>\<open>blocks.map\<close>: an empty block stays empty; otherwise the widths and
  their maximum are computed first (\<^verbatim>\<open>lineStats\<close>), then every line is formatted and the
  lines are joined.
\<close>

definition formatBlock :: "segmenter \<Rightarrow> bool \<Rightarrow> block \<Rightarrow> error + jstring" where
  "formatBlock seg isRichMode blk =
     (if map fst blk = [[]] then Inr []
      else
        let lineStats = map (\<lambda>(line, lineMeta).
                               (line, getTextDisplayWidth seg line isRichMode, lineMeta)) blk;
            maxVisWidth = foldl (\<lambda>m (line, visW, lineMeta). if visW > m then visW else m)
                            0 lineStats
        in bindE (mapE (\<lambda>(line, visW, lineMeta).
                          formatLine seg isRichMode maxVisWidth line visW lineMeta) lineStats)
             (\<lambda>formatted. Inr (joinWith [c_newline] formatted)))"

definition autoFormat :: "SmoothScrub \<Rightarrow> jstring \<Rightarrow> error + jstring" where
  "autoFormat this ascii =
     (let parsedLines = parseDocument (segmenter this) ascii;
          isRichMode = documentRichMode (segmenter this) ascii;
          blocks = collectBlocks parsedLines [] []
      in bindE (mapE (formatBlock (segmenter this) isRichMode) blocks)
           (\<lambda>formattedBlocks. Inr (joinWith [c_newline] formattedBlocks)))"

text \<open>
  \<^verbatim>\<open>Intl.Segmenter\<close> cuts a string into consecutive segments: the segments of a string
  concatenate to the string. \<^verbatim>\<open>Array.from\<close> does too.
\<close>

definition segmenterPartitions :: "segmenter \<Rightarrow> bool" where
  "segmenterPartitions seg = (\<forall>s. concat (splitGraphemes seg s) = s)"

section \<open>Notions used in the statements and proofs\<close>

text \<open>
  A code unit that may occur in an accepted color value: not white space and none of
  the rejected punctuation.
\<close>

definition plainColorChar :: "uchar \<Rightarrow> bool" where
  "plainColorChar c = (\<not> isJsSpace c \<and> c \<noteq> c_lparen \<and> c \<noteq> c_rparen \<and> c \<noteq> c_semi \<and>
     c \<noteq> c_lbrace \<and> c \<noteq> c_rbrace \<and> c \<noteq> c_newline)"

text \<open>
  A marker as the parser emits it: one of the three keys, and a value that is not
  empty, has only plain code units and passes the color check.
\<close>

definition validMarker :: "ParsedMarker \<Rightarrow> bool" where
  "validMarker m = (key m \<in> {js ''bg'', js ''stroke'', js ''color''} \<and>
     val m \<noteq> [] \<and> (\<forall>c\<in>set (val m). plainColorChar c) \<and> isSafeColorValue (val m))"

text \<open>
  The code units that the normalizer may add to a line.
\<close>

definition fillers :: "uchar set" where
  "fillers = {c_space, c_minus, g_horz, g_dbl_horz}"

text \<open>
  What is tracked for one line of a block and its formatted line: the formatted line
  has no newline, and the separator line stays empty.
\<close>

definition lineOut :: "jstring \<times> ParsedLineMarkers \<Rightarrow> jstring \<Rightarrow> bool" where
  "lineOut lm out = (c_newline \<notin> set out \<and> (lm = ([], blankMeta) \<longrightarrow> out = []))"

text \<open>
  A line of a block is well formed when it has no newline and its markers are valid.
\<close>

definition okLine :: "jstring \<times> ParsedLineMarkers \<Rightarrow> bool" where
  "okLine lm = (c_newline \<notin> set (fst lm) \<and> (\<forall>m\<in>set (markers (snd lm)). validMarker m))"

text \<open>
  The entry that the block collection makes for a parsed line: the separator entry for
  a blank line, the clean line with its parse result otherwise.
\<close>

definition lineOf :: "ParsedLineMarkers \<Rightarrow> jstring \<times> ParsedLineMarkers" where
  "lineOf p = (if trim (cleanLine p) = [] then ([], blankMeta) else (cleanLine p, p))"

text \<open>
  The scan of \<^verbatim>\<open>line.matchAll(COLOR_MARKER_REGEX)\<close> taken alone: the pieces of the line
  between the matches. Each piece comes with the two groups of the match that ends it;
  the last component is the text after the last match. \<open>pre\<close> is the part of the current
  piece already passed, as in \<open>parseLoop\<close>.
\<close>

function chunks :: "jstring \<Rightarrow> jstring \<Rightarrow> (jstring \<times> jstring \<times> jstring) list \<times> jstring" where
  "chunks pre [] = ([], pre)"
| "chunks pre (c # cs) =
     (case matchMarkerAt (c # cs) of
        None \<Rightarrow> chunks (pre @ [c]) cs
      | Some (group1, group2, rest) \<Rightarrow>
          (case chunks [] rest of (ms, sfx) \<Rightarrow> ((pre, group1, group2) # ms, sfx)))"
  by pat_completeness auto
termination
  by (relation "measure (\<lambda>(pre, s). length s)") (auto dest: matchMarkerAt_shorter)

text \<open>
  The test of the loop body that decides whether a match becomes a marker: the key is
  one of the three kinds and the value passes the color check. \<open>markerOfMatch\<close> is the
  marker then pushed, \<open>markersOf\<close> the markers of a list of pieces with the index
  counted in graphemes from \<open>i\<close>, and \<open>applyChunks\<close> the loop body run over the pieces.
\<close>

definition keepsMarker :: "jstring \<Rightarrow> jstring \<Rightarrow> bool" where
  "keepsMarker group1 group2 =
     ((toLowerCase group1 = js ''bg'' \<or> toLowerCase group1 = js ''stroke'' \<or>
       toLowerCase group1 = js ''color'') \<and> isSafeColorValue (trim group2))"

definition markerOfMatch :: "jstring \<Rightarrow> jstring \<Rightarrow> nat \<Rightarrow> ParsedMarker" where
  "markerOfMatch group1 group2 i = \<lparr>key = toLowerCase group1, val = trim group2, index = i\<rparr>"

fun markersOf :: "segmenter \<Rightarrow> nat \<Rightarrow> (jstring \<times> jstring \<times> jstring) list \<Rightarrow> ParsedMarker list" where
  "markersOf seg i [] = []"
| "markersOf seg i ((P, k, g) # ms) =
     (if keepsMarker k g then [markerOfMatch k g (i + length (splitGraphemes seg P))] else []) @
     markersOf seg (i + length (splitGraphemes seg P)) ms"

definition applyChunks :: "segmenter \<Rightarrow> parseState \<Rightarrow> (jstring \<times> jstring \<times> jstring) list \<Rightarrow> parseState" where
  "applyChunks seg st ms = foldl (\<lambda>st (P, k, g). onMarkerMatch seg P k g st) st ms"

text \<open>
  A piece joins the text that follows it when some suffix of the piece, followed by
  that text, begins with marker syntax that ends beyond the piece. \<open>joinsAtSeam x\<close>
  holds when, in the clean line of \<open>x\<close>, the piece before some stripped marker joins
  the clean text after it.
\<close>

definition seamJoins :: "jstring \<Rightarrow> jstring \<Rightarrow> bool" where
  "seamJoins piece after =
     list_ex (\<lambda>q. case matchMarkerAt (drop q piece @ after) of
                    None \<Rightarrow> False
                  | Some (group1, group2, rest) \<Rightarrow> length rest < length after)
       [0..<length piece]"

fun seamsJoin :: "jstring list \<Rightarrow> jstring \<Rightarrow> bool" where
  "seamsJoin [] sfx = False"
| "seamsJoin (P # ps) sfx = (seamJoins P (concat ps @ sfx) \<or> seamsJoin ps sfx)"

definition joinsAtSeam :: "jstring \<Rightarrow> bool" where
  "joinsAtSeam x = (case chunks [] x of (ms, sfx) \<Rightarrow> seamsJoin (map fst ms) sfx)"

text \<open>
  The line written back from the pieces: every piece in order, followed by the text of
  its marker when the match was kept as a marker (the text of a marker does not depend
  on its index). \<open>reinjectClash x\<close> holds when the piece before some dropped match of
  \<open>x\<close> joins the text written back after it. \<open>merged\<close> gives the pieces of the line
  written back: a piece before a dropped match is joined with the piece after it.
\<close>

fun reinjected :: "(jstring \<times> jstring \<times> jstring) list \<Rightarrow> jstring \<Rightarrow> jstring" where
  "reinjected [] sfx = sfx"
| "reinjected ((P, k, g) # ms) sfx =
     P @ (if keepsMarker k g then markerText (markerOfMatch k g 0) else []) @ reinjected ms sfx"

fun reinjectClashes :: "(jstring \<times> jstring \<times> jstring) list \<Rightarrow> jstring \<Rightarrow> bool" where
  "reinjectClashes [] sfx = False"
| "reinjectClashes ((P, k, g) # ms) sfx =
     ((\<not> keepsMarker k g \<and> seamJoins P (reinjected ms sfx)) \<or> reinjectClashes ms sfx)"

definition reinjectClash :: "jstring \<Rightarrow> bool" where
  "reinjectClash x = (case chunks [] x of (ms, sfx) \<Rightarrow> reinjectClashes ms sfx)"

fun merged :: "jstring \<Rightarrow> (jstring \<times> jstring \<times> jstring) list \<Rightarrow> jstring \<Rightarrow>
    (jstring \<times> jstring \<times> jstring) list \<times> jstring" where
  "merged pre [] sfx = ([], pre @ sfx)"
| "merged pre ((P, k, g) # ms) sfx =
     (if keepsMarker k g
      then ((pre @ P, toLowerCase k, trim g) # fst (merged [] ms sfx), snd (merged [] ms sfx))
      else merged (pre @ P) ms sfx)"

text \<open>
  A segmenter segments a list of pieces piece by piece when the segments of every run
  of consecutive pieces, joined, are the segments of the pieces in order, and the
  segments of a piece concatenate to the piece. For the pieces of a line this says that
  no stripped marker stands inside a grapheme of the clean line; \<^verbatim>\<open>Array.from\<close> does so
  unless a marker stands between a high surrogate and the low surrogate after it.
\<close>

definition piecewise :: "segmenter \<Rightarrow> jstring list \<Rightarrow> bool" where
  "piecewise seg ps =
     ((\<forall>as run bs. ps = as @ run @ bs \<longrightarrow>
         splitGraphemes seg (concat run) = concat (map (splitGraphemes seg) run)) \<and>
      (\<forall>P\<in>set ps. concat (splitGraphemes seg P) = P))"

definition linePieces :: "jstring \<Rightarrow> jstring list" where
  "linePieces x = (case chunks [] x of (ms, sfx) \<Rightarrow> map fst ms @ [sfx])"

definition segmentsByPieces :: "segmenter \<Rightarrow> jstring \<Rightarrow> bool" where
  "segmentsByPieces seg x = piecewise seg (linePieces x)"

text \<open>
  The shape of the text of a match: a header \<^verbatim>\<open>{\<close>, white space, \<^verbatim>\<open>#\<close>, the key
  letters, white space, \<^verbatim>\<open>:\<close>; then a body without \<^verbatim>\<open>}\<close>, not empty; then \<^verbatim>\<open>}\<close>.
  \<open>groupOf\<close> is group 2 of a body. \<open>nativeBefore P W\<close> says that no suffix of \<open>P\<close>
  followed by \<open>W\<close> begins with marker syntax, and a piece is native when this holds
  for the piece followed by the text of some match, as it does for the pieces of a scan.
\<close>

definition groupOf :: "jstring \<Rightarrow> jstring" where
  "groupOf body =
     (if dropWhile isJsSpace body = [] then [last body] else trimEnd (dropWhile isJsSpace body))"

definition isHeader :: "jstring \<Rightarrow> jstring \<Rightarrow> bool" where
  "isHeader H k = (\<exists>ws1 ws2. H = c_lbrace # ws1 @ c_hash # k @ ws2 @ [c_colon] \<and>
     (\<forall>c\<in>set ws1. isJsSpace c) \<and> k \<noteq> [] \<and> (\<forall>c\<in>set k. isAsciiLetter c) \<and>
     (\<forall>c\<in>set ws2. isJsSpace c))"

definition isMatchText :: "jstring \<Rightarrow> jstring \<Rightarrow> jstring \<Rightarrow> bool" where
  "isMatchText M k g = (\<exists>H body. M = H @ body @ [c_rbrace] \<and> isHeader H k \<and> body \<noteq> [] \<and>
     c_rbrace \<notin> set body \<and> g = groupOf body)"

definition nativeBefore :: "jstring \<Rightarrow> jstring \<Rightarrow> bool" where
  "nativeBefore P W = (\<forall>q<length P. matchMarkerAt (drop q P @ W) = None)"

definition pieceNative :: "jstring \<Rightarrow> bool" where
  "pieceNative P = (\<exists>M k g R. isMatchText M k g \<and> nativeBefore P (M @ R))"

text \<open>
  The marker loop of \<^verbatim>\<open>render\<close> visits the markers row by row: \<open>documentMarkers\<close> lists
  them in that order, each with its row, and \<open>styleStep\<close> is the loop body for one of
  them. \<open>styleTarget\<close> is the id of the box that the lookup returns for a marker, and
  \<open>styleField\<close> reads the field of a style that a \<^verbatim>\<open>bg\<close> or \<^verbatim>\<open>stroke\<close> marker sets.
\<close>

definition isStyleKey :: "jstring \<Rightarrow> bool" where
  "isStyleKey k = (k = js ''bg'' \<or> k = js ''stroke'')"

definition styleField :: "jstring \<Rightarrow> BoxStyle \<Rightarrow> jstring option" where
  "styleField k style = (if k = js ''bg'' then bg style else stroke style)"

definition documentMarkers :: "ParsedLineMarkers list \<Rightarrow> (nat \<times> ParsedMarker) list" where
  "documentMarkers parsedLines =
     concat (map (\<lambda>(row, line). map (Pair row) (markers line))
       (zip [0..<length parsedLines] parsedLines))"

definition styleTarget :: "DetectedBox list \<Rightarrow> nat \<times> ParsedMarker \<Rightarrow> boxId option" where
  "styleTarget boxes rm =
     map_option boxIdOf (findSmallestEnclosingBox boxes (fst rm) (index (snd rm)))"

definition styleStep :: "DetectedBox list \<Rightarrow> boxStyles \<Rightarrow> nat \<times> ParsedMarker \<Rightarrow> boxStyles" where
  "styleStep boxes styles rm = applyStyleMarker boxes (fst rm) styles (snd rm)"

section \<open>Properties of the classifier and the marker parser\<close>

subsection \<open>Vertical connectivity\<close>

text \<open>
  C6, counterexample. The top tee is one of the junction glyphs (the code's
  \<^verbatim>\<open>CORNER_CHARS\<close>, "corner and intersection characters") and is structural in rich
  mode, yet it has no upward arm: \<^verbatim>\<open>connectsUp\<close> rejects it. So not every junction
  glyph satisfies both \<^verbatim>\<open>connectsDown\<close> and \<^verbatim>\<open>connectsUp\<close>.
\<close>

theorem C6_top_tee_does_not_connect_up:
  "isCorner [g_down_horz] \<and> isStructure [g_down_horz] True \<and>
   connectsDown [g_down_horz] True \<and> \<not> connectsUp [g_down_horz] True"
  by (simp add: isCorner_def isStructure_def connectsUp_def connectsDown_def testClass_def
        CORNER_CHARS_def RICH_STRUCTURE_CHARS_def CONNECTS_UP_RICH_def CONNECTS_DOWN_RICH_def
        glyph_defs)

text \<open>
  C6, amended. In both modes the horizontal-rule glyphs (light horizontal, \<^verbatim>\<open>=\<close>,
  \<^verbatim>\<open>-\<close>, \<^verbatim>\<open>_\<close>) connect neither down nor up. In rich mode the vertical bars (light and
  double) and the junctions with both a downward and an upward arm (left tee, right tee,
  four-way junction) connect both ways; in ASCII mode \<^verbatim>\<open>|\<close>, \<^verbatim>\<open>+\<close> and \<^verbatim>\<open>v\<close> connect
  both ways. The top tee and the top corners connect down only, the bottom tee and the
  bottom corners connect up only, and \<^verbatim>\<open>v\<close> connects in neither direction in rich mode.
\<close>

theorem C6_vertical_connectivity:
  "(c \<in> {g_horz, c_eq, c_minus, c_underscore} \<longrightarrow>
       \<not> connectsDown [c] m \<and> \<not> connectsUp [c] m) \<and>
   (v \<in> {g_vert, g_dbl_vert, g_vert_right, g_vert_left, g_cross} \<longrightarrow>
       connectsDown [v] True \<and> connectsUp [v] True) \<and>
   (a \<in> {c_bar, c_plus, c_v} \<longrightarrow> connectsDown [a] False \<and> connectsUp [a] False) \<and>
   (d \<in> {g_down_right, g_down_left, g_down_horz} \<longrightarrow>
       connectsDown [d] True \<and> \<not> connectsUp [d] True) \<and>
   (u \<in> {g_up_right, g_up_left, g_up_horz} \<longrightarrow>
       connectsUp [u] True \<and> \<not> connectsDown [u] True) \<and>
   \<not> connectsDown [c_v] True \<and> \<not> connectsUp [c_v] True"
  by (auto simp add: connectsUp_def connectsDown_def testClass_def CONNECTS_UP_RICH_def
        CONNECTS_DOWN_RICH_def glyph_defs)

theorem C6_vertical_connectivity_witness:
  "\<not> connectsDown [c_minus] False \<and> \<not> connectsUp [c_minus] False \<and>
   connectsDown [g_cross] True \<and> connectsUp [g_cross] True \<and>
   connectsDown [c_plus] False \<and> connectsUp [c_plus] False \<and>
   connectsDown [g_down_right] True \<and> \<not> connectsUp [g_down_right] True \<and>
   connectsUp [g_up_horz] True \<and> \<not> connectsDown [g_up_horz] True"
  using C6_vertical_connectivity [of c_minus False g_cross c_plus g_down_right g_up_horz]
  by simp

subsection \<open>Color values\<close>

lemma mem_dropWhile: "c \<in> set s \<Longrightarrow> \<not> P c \<Longrightarrow> c \<in> set (dropWhile P s)"
  by (induction s) auto

lemma set_trim: "c \<in> set s \<Longrightarrow> \<not> isJsSpace c \<Longrightarrow> c \<in> set (trim s)"
  by (simp add: trim_def trimStart_def trimEnd_def mem_dropWhile)

lemma trimStart_id: "s \<noteq> [] \<Longrightarrow> \<not> isJsSpace (hd s) \<Longrightarrow> trimStart s = s"
  by (cases s) (simp_all add: trimStart_def)

lemma trimEnd_id: "s \<noteq> [] \<Longrightarrow> \<not> isJsSpace (last s) \<Longrightarrow> trimEnd s = s"
proof -
  assume a: "s \<noteq> []" "\<not> isJsSpace (last s)"
  then have "\<not> isJsSpace (hd (rev s))" by (simp add: hd_rev)
  moreover from a have "rev s \<noteq> []" by simp
  ultimately have "dropWhile isJsSpace (rev s) = rev s" by (cases "rev s") simp_all
  then show ?thesis by (simp add: trimEnd_def)
qed

lemma trim_id:
  "s \<noteq> [] \<Longrightarrow> \<not> isJsSpace (hd s) \<Longrightarrow> \<not> isJsSpace (last s) \<Longrightarrow> trim s = s"
  by (simp add: trim_def trimStart_id trimEnd_id)

lemma matchUrlAt_lparen: "matchUrlAt s \<Longrightarrow> c_lparen \<in> set s"
proof (induction s rule: matchUrlAt.induct)
  case (1 u r l rest)
  then obtain p q where "dropWhile isJsSpace rest = p # q" "p = c_lparen"
    by (cases "dropWhile isJsSpace rest") auto
  then have "c_lparen \<in> set (dropWhile isJsSpace rest)" by simp
  then have "c_lparen \<in> set rest" by (rule set_dropWhileD)
  then show ?case by simp
qed simp_all

lemma testUrl_lparen: "testUrl s \<Longrightarrow> c_lparen \<in> set s"
  by (induction s) (auto dest: matchUrlAt_lparen)

lemma hexDigit_plain: "isHexDigit c \<Longrightarrow> plainColorChar c"
  by (auto simp: isHexDigit_def isDigit_def isJsSpace_def plainColorChar_def glyph_defs)

lemma letter_plain: "isAsciiLetter c \<Longrightarrow> plainColorChar c"
  by (auto simp: isAsciiLetter_def isUpperAscii_def isLowerAscii_def isJsSpace_def
        plainColorChar_def glyph_defs)

lemma hash_plain: "plainColorChar c_hash"
  by (auto simp: isJsSpace_def plainColorChar_def glyph_defs)

lemma plain_string_checks:
  assumes ne: "v \<noteq> []" and all: "\<forall>c\<in>set v. plainColorChar c"
  shows "trim v = v" and "\<not> testUrl v"
    and "\<not> testClass [c_lparen, c_rparen, c_semi, c_lbrace, c_rbrace] v"
proof -
  have "\<not> isJsSpace (hd v)" "\<not> isJsSpace (last v)"
    using all ne by (auto simp: plainColorChar_def)
  then show "trim v = v" using ne by (simp add: trim_id)
  show "\<not> testUrl v" using all testUrl_lparen by (auto simp: plainColorChar_def)
  show "\<not> testClass [c_lparen, c_rparen, c_semi, c_lbrace, c_rbrace] v"
    using all by (auto simp: testClass_def list_ex_iff plainColorChar_def)
qed

lemma hex_safe:
  assumes "matchHex 3 v \<or> matchHex 6 v"
  shows "isSafeColorValue v"
proof -
  from assms obtain ds where v: "v = c_hash # ds" and h: "list_all isHexDigit ds"
    by (cases v) (auto simp: matchHex_def)
  have all: "\<forall>c\<in>set v. plainColorChar c"
    using v h hexDigit_plain hash_plain by (auto simp: list_all_iff)
  have ne: "v \<noteq> []" using v by simp
  show ?thesis using plain_string_checks [OF ne all] ne assms
    by (auto simp: isSafeColorValue_def)
qed

lemma toLowerCase_lower: "list_all isLowerAscii s \<Longrightarrow> toLowerCase s = s"
  by (induction s) (auto simp: toLowerCase_def isLowerAscii_def isUpperAscii_def)

lemma named_lower: "list_all (\<lambda>v. v \<noteq> [] \<and> list_all isLowerAscii v) CSS_NAMED_COLORS"
  by (simp add: CSS_NAMED_COLORS_def js_def isLowerAscii_def)

lemma named_safe:
  assumes "v \<in> set CSS_NAMED_COLORS"
  shows "isSafeColorValue v"
proof -
  from assms named_lower have ne: "v \<noteq> []" and low: "list_all isLowerAscii v"
    by (auto simp: list_all_iff)
  have lt: "list_all isAsciiLetter v" using low by (auto simp: list_all_iff isAsciiLetter_def)
  have all: "\<forall>c\<in>set v. plainColorChar c"
    using lt letter_plain by (auto simp: list_all_iff)
  show ?thesis using plain_string_checks [OF ne all] ne lt assms low
    by (simp add: isSafeColorValue_def toLowerCase_lower)
qed

lemma unsafe_char:
  assumes "c \<in> set v" and "c \<in> {c_lparen, c_rparen, c_lbrace, c_rbrace, c_semi}"
  shows "\<not> isSafeColorValue v"
proof -
  have "\<not> isJsSpace c" using assms(2) by (auto simp: isJsSpace_def glyph_defs)
  then have "c \<in> set (trim v)" using assms(1) by (rule set_trim[rotated])
  then have "testClass [c_lparen, c_rparen, c_semi, c_lbrace, c_rbrace] (trim v)"
    using assms(2) by (auto simp: testClass_def list_ex_iff)
  then show ?thesis by (simp add: isSafeColorValue_def Let_def)
qed

text \<open>
  C1. Every string \<open>v\<close> that is \<^verbatim>\<open>#\<close> followed by exactly three or exactly six hex
  digits, or that is one of the names of the allow-list, passes \<^verbatim>\<open>isSafeColorValue\<close>;
  every string \<open>w\<close> that contains one of \<^verbatim>\<open>( ) { } ;\<close> or the substring \<^verbatim>\<open>url(\<close> fails it.
\<close>

theorem C1_isSafeColorValue:
  "((\<exists>ds. v = c_hash # ds \<and> (length ds = 3 \<or> length ds = 6) \<and> (\<forall>d\<in>set ds. isHexDigit d))
      \<or> v \<in> set CSS_NAMED_COLORS \<longrightarrow> isSafeColorValue v) \<and>
   ((\<exists>c\<in>set w. c \<in> {c_lparen, c_rparen, c_lbrace, c_rbrace, c_semi}) \<or>
    (\<exists>pre post. w = pre @ js ''url('' @ post) \<longrightarrow> \<not> isSafeColorValue w)"
proof -
  have "c_lparen \<in> set (pre @ js ''url('' @ post)" for pre post
    by (simp add: js_def glyph_defs)
  moreover have "matchHex 3 v \<or> matchHex 6 v"
    if "v = c_hash # ds" "length ds = 3 \<or> length ds = 6" "\<forall>d\<in>set ds. isHexDigit d" for ds
    using that by (auto simp: matchHex_def list_all_iff)
  ultimately show ?thesis using hex_safe named_safe unsafe_char by blast
qed

theorem C1_isSafeColorValue_witness:
  "isSafeColorValue (js ''#a1B2c3'') \<and> \<not> isSafeColorValue (js ''url(x)'')"
proof -
  have 1: "js ''#a1B2c3'' = c_hash # js ''a1B2c3'' \<and> length (js ''a1B2c3'') = 6 \<and>
           (\<forall>d\<in>set (js ''a1B2c3''). isHexDigit d)"
    by (simp add: js_def isHexDigit_def isDigit_def glyph_defs)
  have 2: "js ''url(x)'' = [] @ js ''url('' @ js ''x)''" by (simp add: js_def)
  show ?thesis using C1_isSafeColorValue [of "js ''#a1B2c3''" "js ''url(x)''"] 1 2 by blast
qed

subsection \<open>Marker stripping\<close>

lemma matchMarkerAt_suffix:
  assumes "matchMarkerAt s = Some (k, g, rest)"
  shows "\<exists>m. s = c_lbrace # m @ rest"
proof -
  have dw: "\<exists>m. xs = m @ ys" if "dropWhile P xs = y # ys" for P :: "nat \<Rightarrow> bool" and xs y ys
  proof -
    have "xs = takeWhile P xs @ dropWhile P xs" by simp
    then have "xs = (takeWhile P xs @ [y]) @ ys" using that by simp
    then show ?thesis by blast
  qed
  from assms obtain b s1 h s2 cl s3 x where s: "s = b # s1"
    and s2: "dropWhile isJsSpace s1 = h # s2"
    and s3: "dropWhile isJsSpace (dropWhile isAsciiLetter s2) = cl # s3"
    and s4: "dropWhile (\<lambda>c. c \<noteq> c_rbrace) s3 = x # rest"
    using matchMarkerAt_SomeD by blast
  have b: "b = c_lbrace" using assms s by (auto simp: matchMarkerAt_def split: if_splits)
  from dw [OF s4] obtain m4 where "s3 = m4 @ rest" by blast
  moreover from dw [OF s3] obtain m3 where "dropWhile isAsciiLetter s2 = m3 @ s3" by blast
  moreover have "s2 = takeWhile isAsciiLetter s2 @ dropWhile isAsciiLetter s2" by simp
  moreover from dw [OF s2] obtain m2 where "s1 = m2 @ s2" by blast
  ultimately have "s1 = (m2 @ takeWhile isAsciiLetter s2 @ m3 @ m4) @ rest"
    by (metis append.assoc)
  then show ?thesis using s b by blast
qed

lemma ps_cleanLine_onMarkerMatch [simp]:
  "ps_cleanLine (onMarkerMatch seg pre g1 g2 st) = ps_cleanLine st @ pre"
  by (simp add: onMarkerMatch_def Let_def)

lemma ps_hadMarkers_onMarkerMatch [simp]:
  "ps_hadMarkers (onMarkerMatch seg pre g1 g2 st) = True"
  by (simp add: onMarkerMatch_def Let_def)

lemma parseLoop_clean_subset:
  "set (ps_cleanLine (parseLoop seg pre s st)) \<subseteq> set (ps_cleanLine st) \<union> set pre \<union> set s"
proof (induction seg pre s st rule: parseLoop.induct)
  case (1 seg pre st)
  then show ?case by simp
next
  case (2 seg pre c cs st)
  show ?case
  proof (cases "matchMarkerAt (c # cs)")
    case None
    then show ?thesis using 2(1) by auto
  next
    case (Some t)
    obtain g1 g2 rest where t: "t = (g1, g2, rest)" by (cases t) auto
    from Some t matchMarkerAt_suffix obtain m where "c # cs = c_lbrace # m @ rest" by blast
    then have "set rest \<subseteq> set (c # cs)" by (metis set_append Un_upper2 set_subset_Cons subset_trans)
    then show ?thesis using 2(2)[OF Some t[symmetric] refl] Some t by auto
  qed
qed

lemmas parse_eval_simps =
  parseLineMarkers_def js_def matchMarkerAt_def glyph_defs isJsSpace_def isAsciiLetter_def
  isUpperAscii_def isLowerAscii_def

subsection \<open>Mode detection\<close>

lemma set_splitOn: "\<Union> (set ` set (splitOn d s)) \<subseteq> set s"
proof (induction s)
  case Nil
  then show ?case by simp
next
  case (Cons c cs)
  then show ?case by (cases "splitOn d cs") auto
qed

lemma set_joinWith: "set (joinWith d xs) \<subseteq> set d \<union> \<Union> (set ` set xs)"
  by (induction d xs rule: joinWith.induct) auto

lemma testClass_joinWith:
  "c_newline \<notin> set cls \<Longrightarrow>
     testClass cls (joinWith [c_newline] xs) = (\<exists>x\<in>set xs. testClass cls x)"
  by (induction "[c_newline]" xs rule: joinWith.induct)
     (auto simp: testClass_def list_ex_iff)

lemma set_cleanLine_parse: "set (cleanLine (parseLineMarkers seg l)) \<subseteq> set l"
  using parseLoop_clean_subset [of seg "[]" l
      "\<lparr>ps_cleanLine = [], ps_cleanIndex = 0, ps_markers = [], ps_hadMarkers = False\<rparr>"]
  by (simp add: parseLineMarkers_def Let_def)

lemma set_stripTrailingCR: "set (stripTrailingCR l) \<subseteq> set l"
  by (auto simp: stripTrailingCR_def dest: in_set_butlastD)

lemma set_parseDocument_clean:
  assumes "p \<in> set (parseDocument seg ascii)" and "c \<in> set (cleanLine p)"
  shows "c \<in> set ascii"
proof -
  from assms(1) obtain l where l: "l \<in> set (splitOn c_newline (removeZeroWidth ascii))"
    and p: "p = parseLineMarkers seg (stripTrailingCR l)"
    by (auto simp: parseDocument_def)
  from assms(2) p have "c \<in> set (stripTrailingCR l)" using set_cleanLine_parse by blast
  then have "c \<in> set l" using set_stripTrailingCR by blast
  then have "c \<in> set (removeZeroWidth ascii)" using l set_splitOn by blast
  then show ?thesis by (simp add: removeZeroWidth_def)
qed

lemma newline_not_rich: "c_newline \<notin> set RICH_MODE_DETECTOR"
  by (simp add: RICH_MODE_DETECTOR_def glyph_defs)

text \<open>
  C2, counterexample. The mode is detected on the clean lines, after marker stripping.
  The document \<^verbatim>\<open>{#color:X}\<close>, with the light horizontal glyph for \<^verbatim>\<open>X\<close>, contains a
  box-drawing glyph, but the glyph is inside a marker, the marker is stripped, and rich
  mode is off.
\<close>

theorem C2_glyph_inside_marker:
  "g_horz \<in> set (js ''{#color:'' @ [g_horz] @ js ''}'') \<and> g_horz \<in> set RICH_MODE_DETECTOR \<and>
   \<not> documentRichMode None (js ''{#color:'' @ [g_horz] @ js ''}'')"
  by (simp add: documentRichMode_def parseDocument_def removeZeroWidth_def stripTrailingCR_def
      detectRichMode_def testClass_def RICH_MODE_DETECTOR_def parse_eval_simps)

text \<open>
  C2, amended. Both entry points compute the mode once, from the marker-stripped text:
  rich mode is on if and only if one of the twelve box-drawing glyphs occurs in the clean
  line of some line of the document. So rich mode on implies that a glyph occurs in the
  document text passed to the call; a glyph that occurs only inside marker syntax does
  not switch rich mode on.
\<close>

theorem C2_rich_mode_on_clean_lines:
  "documentRichMode seg ascii =
     (\<exists>p\<in>set (parseDocument seg ascii). \<exists>c\<in>set (cleanLine p). c \<in> set RICH_MODE_DETECTOR) \<and>
   (documentRichMode seg ascii \<longrightarrow> (\<exists>c\<in>set ascii. c \<in> set RICH_MODE_DETECTOR))"
proof -
  have 1: "documentRichMode seg ascii =
     (\<exists>p\<in>set (parseDocument seg ascii). \<exists>c\<in>set (cleanLine p). c \<in> set RICH_MODE_DETECTOR)"
  proof -
    have "documentRichMode seg ascii =
        (\<exists>x\<in>set (map cleanLine (parseDocument seg ascii)). testClass RICH_MODE_DETECTOR x)"
      unfolding documentRichMode_def detectRichMode_def
      by (rule testClass_joinWith [OF newline_not_rich])
    then show ?thesis by (auto simp: testClass_def list_ex_iff)
  qed
  then show ?thesis using set_parseDocument_clean by blast
qed

theorem C2_rich_mode_on_clean_lines_witness:
  "documentRichMode None (js ''+'' @ [g_horz] @ js ''+'') \<and>
   (\<exists>c\<in>set (js ''+'' @ [g_horz] @ js ''+''). c \<in> set RICH_MODE_DETECTOR)"
proof -
  have "documentRichMode None (js ''+'' @ [g_horz] @ js ''+'')"
    by (simp add: documentRichMode_def parseDocument_def removeZeroWidth_def
        stripTrailingCR_def detectRichMode_def testClass_def RICH_MODE_DETECTOR_def
        parse_eval_simps)
  then show ?thesis
    using C2_rich_mode_on_clean_lines [of None "js ''+'' @ [g_horz] @ js ''+''"] by blast
qed

subsection \<open>Box style resolution\<close>

lemma sort_key_head_min:
  assumes "sort_key f xs = y # ys"
  shows "y \<in> set xs \<and> (\<forall>x\<in>set xs. f y \<le> f x)"
proof -
  have s: "set (sort_key f xs) = set xs" by simp
  have "sorted (map f (sort_key f xs))" by (rule sorted_sort_key)
  then have "\<forall>x\<in>set ys. f y \<le> f x" using assms by simp
  moreover have "set xs = insert y (set ys)" using s assms by simp
  ultimately show ?thesis by auto
qed

lemma findSmallest_None:
  "findSmallestEnclosingBox boxes row col = None \<longleftrightarrow> (\<forall>b\<in>set boxes. \<not> encloses b row col)"
proof -
  let ?E = "filter (\<lambda>box. row > box_top box \<and> row < box_bottom box \<and>
                             col > box_left box \<and> col < box_right box) boxes"
  have "findSmallestEnclosingBox boxes row col = None \<longleftrightarrow> sort_key area ?E = []"
    by (simp add: findSmallestEnclosingBox_def split: list.splits)
  also have "\<dots> \<longleftrightarrow> set (sort_key area ?E) = {}" by (simp only: set_empty)
  also have "\<dots> \<longleftrightarrow> (\<forall>b\<in>set boxes. \<not> encloses b row col)"
    by (auto simp: encloses_def filter_empty_conv)
  finally show ?thesis .
qed

lemma findSmallest_Some:
  assumes "findSmallestEnclosingBox boxes row col = Some b"
  shows "b \<in> set boxes \<and> encloses b row col \<and>
         (\<forall>b'\<in>set boxes. encloses b' row col \<longrightarrow> area b \<le> area b')"
proof -
  let ?E = "filter (\<lambda>box. row > box_top box \<and> row < box_bottom box \<and>
                             col > box_left box \<and> col < box_right box) boxes"
  from assms obtain ys where "sort_key area ?E = b # ys"
    by (auto simp: findSmallestEnclosingBox_def split: list.splits)
  from sort_key_head_min [OF this]
  have "b \<in> set ?E" and "\<forall>x\<in>set ?E. area b \<le> area x" by auto
  then show ?thesis by (auto simp: encloses_def)
qed

lemma map_of_mapSet_same: "map_of (mapSet styles k v) k = Some v"
  by (induction styles k v rule: mapSet.induct) auto

lemma map_of_mapSet_other: "k' \<noteq> k \<Longrightarrow> map_of (mapSet styles k v) k' = map_of styles k'"
  by (induction styles k v rule: mapSet.induct) auto

lemma boxesAt_area:
  "b \<in> set (boxesAt rows tp l r) \<Longrightarrow>
     area b = (box_right b - box_left b) * (box_bottom b - box_top b) \<and> box_top b + 2 \<le> box_bottom b
     \<and> box_left b = l \<and> box_right b = r"
  by (auto simp: boxesAt_def Let_def split: if_splits)

lemma detected_area:
  "b \<in> set (detectRectangularBoxes seg lines) \<Longrightarrow>
     area b = (box_right b - box_left b) * (box_bottom b - box_top b) \<and>
     box_top b + 2 \<le> box_bottom b \<and> box_left b + 2 \<le> box_right b"
  by (auto simp: detectRectangularBoxes_def Let_def split: if_splits dest!: boxesAt_area)

lemmas box_eval_simps =
  detectRectangularBoxes_def boxesAt_def splitGraphemes_def gAt_def isTopLeftCorner_def
  isTopRightCorner_def isBottomLeftCorner_def isBottomRightCorner_def
  isHorizontalBoxEdge_def isVerticalBoxEdge_def js_def glyph_defs Let_def
  isHighSurrogate_def isLowSurrogate_def

subsection \<open>Evaluating the renderer on concrete documents\<close>

lemma horizontalPass_stop:
  "\<not> i + 1 < length row \<Longrightarrow> horizontalPass m row i = []"
  by (subst horizontalPass.simps) simp

lemma horizontalPass_skip:
  "i + 1 < length row \<Longrightarrow> \<not> canConnectHorizontally m (row ! i) (row ! (i + 1)) \<Longrightarrow>
   horizontalPass m row i = horizontalPass m row (i + 1)"
  by (subst horizontalPass.simps) simp

lemma horizontalPass_run:
  "i + 1 < length row \<Longrightarrow> canConnectHorizontally m (row ! i) (row ! (i + 1)) \<Longrightarrow>
   horizontalPass m row i =
     MoveTo (cell_cx (row ! i)) (cell_cy (row ! i)) # fst (lineToRun m row i) @
     horizontalPass m row (snd (lineToRun m row i))"
  by (subst horizontalPass.simps) (simp split: prod.splits)

lemma lineToRun_stop:
  "\<not> (j + 1 < length row \<and> canConnectHorizontally m (row ! j) (row ! (j + 1))) \<Longrightarrow>
   lineToRun m row j = ([], j)"
  by (subst lineToRun.simps) auto

lemma lineToRun_step:
  "j + 1 < length row \<Longrightarrow> canConnectHorizontally m (row ! j) (row ! (j + 1)) \<Longrightarrow>
   lineToRun m row j =
     (LineTo (cell_cx (row ! (j + 1))) (cell_cy (row ! (j + 1))) # fst (lineToRun m row (j + 1)),
      snd (lineToRun m row (j + 1)))"
  by (subst lineToRun.simps) (simp split: prod.splits)

lemma followRun_stop:
  "\<not> r + 1 < length g \<Longrightarrow> followRun this g m c r = []"
  by (subst followRun.simps) simp

lemma followRun_step:
  "r + 1 < length g \<Longrightarrow>
   followRun this g m c r =
     (case findVerticalNeighbor this c (g ! (r + 1)) m of
        None \<Rightarrow> []
      | Some n \<Rightarrow>
          if partOfStrokedBox c \<and> partOfStrokedBox (g ! (r + 1) ! n) then []
          else (g ! (r + 1) ! n) # followRun this g m (g ! (r + 1) ! n) (r + 1))"
  by (subst followRun.simps) (auto simp: Let_def split: option.splits)

lemma findVerticalNeighbor_not_down:
  "\<not> connectsDown (cell_char c) m \<Longrightarrow> findVerticalNeighbor this c row m = None"
  by (simp add: findVerticalNeighbor_def)

lemma runsFrom_not_connecting:
  "\<not> connectsDown (cell_char (g ! r ! c)) m \<Longrightarrow> \<not> connectsUp (cell_char (g ! r ! c)) m \<Longrightarrow>
   runsFrom this g m r c = []"
  by (simp add: runsFrom_def Let_def)

lemma detectVerticalRuns_nil:
  assumes "\<And>r c. r < length g \<Longrightarrow> c < length (g ! r) \<Longrightarrow> runsFrom this g m r c = []"
  shows "detectVerticalRuns this g m = []"
  using assms by (simp add: detectVerticalRuns_def)

lemma less_3_cases: "(c::nat) < 3 \<Longrightarrow> c = 0 \<or> c = 1 \<or> c = 2"
  by arith

lemma defaultScrub_simps:
  "cw (defaultScrub seg) = 12" "ch (defaultScrub seg) = 24" "segmenter (defaultScrub seg) = seg"
  by (simp_all add: defaultScrub_def construct_def orDefault_def)

lemmas doc_eval_simps = parseDocument_def removeZeroWidth_def stripTrailingCR_def parse_eval_simps

lemmas grid_eval_simps = buildGrid_def buildRow_def maxPixelW_def defaultScrub_simps
  getDisplayWidth_def getGraphemeWidth_def Let_def

lemmas hpass_simps = horizontalPass_stop horizontalPass_skip horizontalPass_run
  lineToRun_stop lineToRun_step canConnectHorizontally_def isStructure_def testClass_def
  ASCII_STRUCTURE_CHARS_def glyph_defs

lemmas conn_simps = connectsDown_def connectsUp_def testClass_def glyph_defs

lemma render_v_arrow:
  assumes seg: "splitsByChar seg (js ''-v-'')"
  shows "\<exists>dr. render (defaultScrub seg) True (js ''-v-'') = Inr dr \<and>
           dr_d dr = [MoveTo 18 36, LineTo 30 36, LineTo 42 36]"
    and "\<not> documentRichMode seg (js ''-v-'')"
proof -
  let ?S = "defaultScrub seg"
  let ?row = "[\<lparr>cell_char = [45], cell_x = 12, cell_y = 24, cell_cx = 18, cell_cy = 36,
      cell_w = 12, cell_cols = Suc 0, partOfStrokedBox = False\<rparr>,
   \<lparr>cell_char = [118], cell_x = 24, cell_y = 24, cell_cx = 30, cell_cy = 36,
      cell_w = 12, cell_cols = Suc 0, partOfStrokedBox = False\<rparr>,
   \<lparr>cell_char = [45], cell_x = 36, cell_y = 24, cell_cx = 42, cell_cy = 36,
      cell_w = 12, cell_cols = Suc 0, partOfStrokedBox = False\<rparr>]"
  have sp: "splitGraphemes seg [45, 118, 45] = [[45], [118], [45]]"
    using seg by (simp add: splitsByChar_def js_def)
  have p: "parseDocument seg (js ''-v-'') =
      [\<lparr>rawLine = [45, 118, 45], cleanLine = [45, 118, 45], markers = [], hadMarkers = False\<rparr>]"
    by (simp add: doc_eval_simps)
  have m: "documentRichMode seg (js ''-v-'') = False"
    unfolding documentRichMode_def p
    by (simp add: detectRichMode_def testClass_def RICH_MODE_DETECTOR_def glyph_defs)
  have b: "detectRectangularBoxes seg [[45, 118, 45]] = []"
    by (simp add: detectRectangularBoxes_def boxesAt_def sp gAt_def isTopLeftCorner_def
        isTopRightCorner_def isHorizontalBoxEdge_def glyph_defs Let_def upt_rec)
  have g: "buildGrid ?S False [[45, 118, 45]] = [?row]"
    by (simp add: grid_eval_simps sp)
  have h: "horizontalPass False ?row 0 = [MoveTo 18 36, LineTo 30 36, LineTo 42 36]"
    by (simp add: hpass_simps)
  have v0: "runsFrom ?S [?row] False 0 0 = []"
    by (rule runsFrom_not_connecting) (simp_all add: conn_simps)
  have v2: "runsFrom ?S [?row] False 0 2 = []"
    by (rule runsFrom_not_connecting) (simp_all add: conn_simps)
  have v1: "runsFrom ?S [?row] False 0 (Suc 0) = []"
    by (simp add: runsFrom_def Let_def conn_simps followRun_stop)
  have v: "detectVerticalRuns ?S [?row] False = []"
  proof (rule detectVerticalRuns_nil)
    fix r c assume "r < length [?row]" and c: "c < length ([?row] ! r)"
    then have r: "r = 0" by simp
    with c have "c < 3" by simp
    then have "c = 0 \<or> c = 1 \<or> c = 2" by (rule less_3_cases)
    then show "runsFrom ?S [?row] False r c = []"
      using v0 v1 v2 r by auto
  qed
  show "\<exists>dr. render ?S True (js ''-v-'') = Inr dr \<and>
           dr_d dr = [MoveTo 18 36, LineTo 30 36, LineTo 42 36]"
    by (simp add: render_def renderGrid_def Let_def defaultScrub_simps p m b g h v
        collectBoxStyles_def tagStrokedBoxes_def)
  show "\<not> documentRichMode seg (js ''-v-'')" using m by simp
qed


lemma runsFrom_text_v:
  "\<not> m \<Longrightarrow> cell_char (g ! r ! c) = [c_v] \<Longrightarrow> \<not> isAsciiVConnector this (g ! r) c r g \<Longrightarrow>
   runsFrom this g m r c = []"
  by (simp add: runsFrom_def Let_def)

lemma less_4_cases: "(c::nat) < 4 \<Longrightarrow> c = 0 \<or> c = 1 \<or> c = 2 \<or> c = 3"
  by arith

lemma less_7_cases:
  "(c::nat) < 7 \<Longrightarrow> c = 0 \<or> c = 1 \<or> c = 2 \<or> c = 3 \<or> c = 4 \<or> c = 5 \<or> c = 6"
  by arith

lemma Suc_Suc_0: "Suc (Suc 0) = 2"
  by simp

lemma render_plus_under_word:
  assumes seg: "splitsByChar seg (js ''Service'')" "splitsByChar seg (js ''   +'')"
  shows "\<exists>dr. render (defaultScrub seg) True (js ''Service'' @ [c_newline] @ js ''   +'') = Inr dr \<and>
           dr_d dr = []"
    and "\<not> isAsciiVConnector (defaultScrub seg)
             (buildGrid (defaultScrub seg) False [js ''Service'', js ''   +''] ! 0) 3 0
             (buildGrid (defaultScrub seg) False [js ''Service'', js ''   +''])"
    and "\<not> documentRichMode seg (js ''Service'' @ [c_newline] @ js ''   +'')"
proof -
  let ?S = "defaultScrub seg"
  let ?in = "js ''Service'' @ [c_newline] @ js ''   +''"
  let ?l0 = "[83, 101, 114, 118, 105, 99, 101]"
  let ?l1 = "[32, 32, 32, 43]"
  let ?r0 = "[\<lparr>cell_char = [83], cell_x = 12, cell_y = 24, cell_cx = 18, cell_cy = 36,
      cell_w = 12, cell_cols = Suc 0, partOfStrokedBox = False\<rparr>,
     \<lparr>cell_char = [101], cell_x = 24, cell_y = 24, cell_cx = 30, cell_cy = 36,
      cell_w = 12, cell_cols = Suc 0, partOfStrokedBox = False\<rparr>,
     \<lparr>cell_char = [114], cell_x = 36, cell_y = 24, cell_cx = 42, cell_cy = 36,
      cell_w = 12, cell_cols = Suc 0, partOfStrokedBox = False\<rparr>,
     \<lparr>cell_char = [118], cell_x = 48, cell_y = 24, cell_cx = 54, cell_cy = 36,
      cell_w = 12, cell_cols = Suc 0, partOfStrokedBox = False\<rparr>,
     \<lparr>cell_char = [105], cell_x = 60, cell_y = 24, cell_cx = 66, cell_cy = 36,
      cell_w = 12, cell_cols = Suc 0, partOfStrokedBox = False\<rparr>,
     \<lparr>cell_char = [99], cell_x = 72, cell_y = 24, cell_cx = 78, cell_cy = 36,
      cell_w = 12, cell_cols = Suc 0, partOfStrokedBox = False\<rparr>,
     \<lparr>cell_char = [101], cell_x = 84, cell_y = 24, cell_cx = 90, cell_cy = 36,
      cell_w = 12, cell_cols = Suc 0, partOfStrokedBox = False\<rparr>]"
  let ?r1 = "[\<lparr>cell_char = [32], cell_x = 12, cell_y = 48, cell_cx = 18, cell_cy = 60,
      cell_w = 12, cell_cols = Suc 0, partOfStrokedBox = False\<rparr>,
     \<lparr>cell_char = [32], cell_x = 24, cell_y = 48, cell_cx = 30, cell_cy = 60,
      cell_w = 12, cell_cols = Suc 0, partOfStrokedBox = False\<rparr>,
     \<lparr>cell_char = [32], cell_x = 36, cell_y = 48, cell_cx = 42, cell_cy = 60,
      cell_w = 12, cell_cols = Suc 0, partOfStrokedBox = False\<rparr>,
     \<lparr>cell_char = [43], cell_x = 48, cell_y = 48, cell_cx = 54, cell_cy = 60,
      cell_w = 12, cell_cols = Suc 0, partOfStrokedBox = False\<rparr>]"
  let ?g = "[?r0, ?r1]"
  have sp: "splitGraphemes seg ?l0 = map (\<lambda>c. [c]) ?l0"
           "splitGraphemes seg ?l1 = map (\<lambda>c. [c]) ?l1"
    using seg by (simp_all add: splitsByChar_def js_def)
  have p: "parseDocument seg ?in =
      [\<lparr>rawLine = ?l0, cleanLine = ?l0, markers = [], hadMarkers = False\<rparr>,
       \<lparr>rawLine = ?l1, cleanLine = ?l1, markers = [], hadMarkers = False\<rparr>]"
    by (simp add: doc_eval_simps)
  have m: "documentRichMode seg ?in = False"
    unfolding documentRichMode_def p
    by (simp add: detectRichMode_def testClass_def RICH_MODE_DETECTOR_def glyph_defs)
  have b: "detectRectangularBoxes seg [?l0, ?l1] = []"
    by (simp add: detectRectangularBoxes_def boxesAt_def sp gAt_def isTopLeftCorner_def
        isTopRightCorner_def isHorizontalBoxEdge_def glyph_defs Let_def upt_rec)
  have g: "buildGrid ?S False [?l0, ?l1] = ?g"
    by (simp add: grid_eval_simps sp)
  have h0: "horizontalPass False ?r0 0 = []"
    by (simp add: hpass_simps)
  have h1: "horizontalPass False ?r1 0 = []"
    by (simp add: hpass_simps)
  have a: "\<not> isAsciiVConnector ?S ?r0 3 0 ?g"
    by (simp add: isAsciiVConnector_def charOrEmpty_def isAsciiWordChar_def isAsciiLetter_def
        isUpperAscii_def isLowerAscii_def isDigit_def testClass_def glyph_defs Let_def)
  have plus: "runsFrom ?S ?g False (Suc 0) 3 = []"
    by (simp add: runsFrom_def Let_def conn_simps followRun_stop a findVerticalNeighbor_not_down
        upt_rec Suc_Suc_0)
  have v: "detectVerticalRuns ?S ?g False = []"
  proof (rule detectVerticalRuns_nil)
    fix r c assume "r < length ?g" and c: "c < length (?g ! r)"
    then have "r = 0 \<or> r = Suc 0" by auto
    then show "runsFrom ?S ?g False r c = []"
    proof
      assume r: "r = 0"
      with c have "c < 7" by simp
      then have "c = 0 \<or> c = 1 \<or> c = 2 \<or> c = 3 \<or> c = 4 \<or> c = 5 \<or> c = 6"
        by (rule less_7_cases)
      moreover have "runsFrom ?S ?g False 0 3 = []"
        using a by (intro runsFrom_text_v) (simp_all add: glyph_defs)
      moreover have "runsFrom ?S ?g False 0 k = []" if "k \<in> {0, 1, 2, 4, 5, 6}" for k
        using that by (intro runsFrom_not_connecting) (auto simp: conn_simps)
      ultimately show ?thesis using r by auto
    next
      assume r: "r = Suc 0"
      with c have "c < 4" by simp
      then have "c = 0 \<or> c = 1 \<or> c = 2 \<or> c = 3" by (rule less_4_cases)
      moreover have "runsFrom ?S ?g False (Suc 0) k = []" if "k \<in> {0, 1, 2}" for k
        using that by (intro runsFrom_not_connecting) (auto simp: conn_simps)
      ultimately show ?thesis using r plus by auto
    qed
  qed
  show "\<exists>dr. render ?S True ?in = Inr dr \<and> dr_d dr = []"
    unfolding render_def renderGrid_def Let_def defaultScrub_simps p m
    by (simp add: b g h0 h1 v collectBoxStyles_def tagStrokedBoxes_def)
  have g': "buildGrid ?S False [js ''Service'', js ''   +''] = ?g"
    using g by (simp add: js_def)
  show "\<not> isAsciiVConnector ?S (buildGrid ?S False [js ''Service'', js ''   +''] ! 0) 3 0
             (buildGrid ?S False [js ''Service'', js ''   +''])"
    unfolding g' using a by simp
  show "\<not> documentRichMode seg ?in" using m by simp
qed

text \<open>
  C3. With the default cell size, and a segmenter that splits the three ASCII lines
  involved into their characters (as \<^verbatim>\<open>Array.from\<close> does): the document \<^verbatim>\<open>-v-\<close> is in
  ASCII mode and its path contains a line segment; the document \<^verbatim>\<open>Service\<close> over
  \<^verbatim>\<open>   +\<close> is in ASCII mode and its path is empty, and the \<^verbatim>\<open>v\<close> of \<^verbatim>\<open>Service\<close> (row 0,
  column 3) is not an arrowhead connector.
\<close>

theorem C3_connector_disambiguation:
  assumes "splitsByChar seg (js ''-v-'')"
    and "splitsByChar seg (js ''Service'')"
    and "splitsByChar seg (js ''   +'')"
  shows "\<not> documentRichMode seg (js ''-v-'') \<and>
    (\<exists>dr. render (defaultScrub seg) True (js ''-v-'') = Inr dr \<and>
          (\<exists>px py. LineTo px py \<in> set (dr_d dr))) \<and>
    \<not> documentRichMode seg (js ''Service'' @ [c_newline] @ js ''   +'') \<and>
    (\<exists>dr. render (defaultScrub seg) True (js ''Service'' @ [c_newline] @ js ''   +'') = Inr dr \<and>
          dr_d dr = []) \<and>
    \<not> isAsciiVConnector (defaultScrub seg)
        (buildGrid (defaultScrub seg) False [js ''Service'', js ''   +''] ! 0) 3 0
        (buildGrid (defaultScrub seg) False [js ''Service'', js ''   +''])"
proof -
  from render_v_arrow(1) [OF assms(1)] obtain dr where
    "render (defaultScrub seg) True (js ''-v-'') = Inr dr"
    "dr_d dr = [MoveTo 18 36, LineTo 30 36, LineTo 42 36]" by blast
  then have "\<exists>dr. render (defaultScrub seg) True (js ''-v-'') = Inr dr \<and>
          (\<exists>px py. LineTo px py \<in> set (dr_d dr))" by auto
  then show ?thesis
    using render_v_arrow(2) [OF assms(1)] render_plus_under_word [OF assms(2,3)] by blast
qed

theorem C3_connector_disambiguation_witness:
  "splitsByChar None (js ''-v-'') \<and> splitsByChar None (js ''Service'') \<and>
   splitsByChar None (js ''   +'') \<and>
   (\<exists>dr. render (defaultScrub None) True (js ''-v-'') = Inr dr \<and>
         (\<exists>px py. LineTo px py \<in> set (dr_d dr))) \<and>
   (\<exists>dr. render (defaultScrub None) True (js ''Service'' @ [c_newline] @ js ''   +'') = Inr dr \<and>
         dr_d dr = [])"
proof -
  have s: "splitsByChar None (js ''-v-'')" "splitsByChar None (js ''Service'')"
    "splitsByChar None (js ''   +'')"
    by (simp_all add: splitsByChar_def splitGraphemes_def js_def isHighSurrogate_def)
  show ?thesis using C3_connector_disambiguation [OF s] s by blast
qed

subsection \<open>Zones\<close>

lemma rowZones_few:
  "length walls < 2 \<Longrightarrow>
   rowZones this width row walls =
     [\<lparr>zone_start = 0, zone_end = length row, leftX = cw this, rightX = width - cw this\<rparr>]"
  by (simp add: rowZones_def)

lemma rowZones_pairs:
  assumes "2 \<le> length walls"
  shows "length (rowZones this width row walls) = length walls - 1"
    and "k < length walls - 1 \<Longrightarrow> rowZones this width row walls ! k =
          \<lparr>zone_start = wall_i (walls ! k) + 1, zone_end = wall_i (walls ! (k + 1)),
           leftX = cell_x (row ! wall_i (walls ! k)) + cell_w (row ! wall_i (walls ! k)),
           rightX = cell_x (row ! wall_i (walls ! (k + 1)))\<rparr>"
  using assms by (simp_all add: rowZones_def Let_def)

lemma render_zones:
  assumes "render this True ascii = Inr dr"
  shows "length (dr_zones dr) = length (renderGrid this ascii)"
    and "r < length (renderGrid this ascii) \<Longrightarrow>
         dr_zones dr ! r = rowZones this (dr_width dr) (renderGrid this ascii ! r)
            (rowWalls (renderGrid this ascii) (documentRichMode (segmenter this) ascii) r)"
    and "dr_width dr =
           maxPixelW this (documentRichMode (segmenter this) ascii)
             (map cleanLine (parseDocument (segmenter this) ascii)) + cw this"
  using assms by (auto simp add: render_def Let_def)

lemma render_total: "\<exists>dr. render this True ascii = Inr dr"
  by (simp add: render_def Let_def)

text \<open>
  C7. In the drawing returned by \<^verbatim>\<open>render\<close> there is one list of zones per grid row.
  A row with fewer than two wall cells has exactly one zone, from cell 0 to the row
  length, with left bound one cell width and right bound the drawing width minus one
  cell width. A row with two or more walls has one zone for each pair of neighbouring
  walls, in order: it starts at the column after the first wall, ends (exclusively) at
  the column of the second, and its pixel bounds are the right edge of the first wall
  cell and the left edge of the second.
\<close>

theorem C7_row_zones:
  assumes "render this True ascii = Inr dr"
  shows "length (dr_zones dr) = length (renderGrid this ascii) \<and>
   (\<forall>r<length (renderGrid this ascii).
      length (rowWalls (renderGrid this ascii) (documentRichMode (segmenter this) ascii) r) < 2 \<longrightarrow>
      dr_zones dr ! r =
        [\<lparr>zone_start = 0, zone_end = length (renderGrid this ascii ! r), leftX = cw this,
          rightX = dr_width dr - cw this\<rparr>]) \<and>
   (\<forall>r<length (renderGrid this ascii).
      2 \<le> length (rowWalls (renderGrid this ascii) (documentRichMode (segmenter this) ascii) r) \<longrightarrow>
      length (dr_zones dr ! r) =
        length (rowWalls (renderGrid this ascii) (documentRichMode (segmenter this) ascii) r) - 1 \<and>
      (\<forall>k<length (rowWalls (renderGrid this ascii)
                    (documentRichMode (segmenter this) ascii) r) - 1.
         let wallA = rowWalls (renderGrid this ascii)
                       (documentRichMode (segmenter this) ascii) r ! k;
             wallB = rowWalls (renderGrid this ascii)
                       (documentRichMode (segmenter this) ascii) r ! (k + 1)
         in dr_zones dr ! r ! k =
              \<lparr>zone_start = wall_i wallA + 1, zone_end = wall_i wallB,
               leftX = cell_x (renderGrid this ascii ! r ! wall_i wallA) +
                       cell_w (renderGrid this ascii ! r ! wall_i wallA),
               rightX = cell_x (renderGrid this ascii ! r ! wall_i wallB)\<rparr>))"
proof -
  let ?g = "renderGrid this ascii"
  let ?m = "documentRichMode (segmenter this) ascii"
  note z = render_zones [OF assms]
  have 1: "length (dr_zones dr) = length ?g" by (rule z(1))
  have 2: "dr_zones dr ! r =
        [\<lparr>zone_start = 0, zone_end = length (?g ! r), leftX = cw this,
          rightX = dr_width dr - cw this\<rparr>]"
    if "r < length ?g" "length (rowWalls ?g ?m r) < 2" for r
    using that z(2) [of r] by (simp add: rowZones_few)
  have 3: "length (dr_zones dr ! r) = length (rowWalls ?g ?m r) - 1"
    if "r < length ?g" "2 \<le> length (rowWalls ?g ?m r)" for r
    using that z(2) [of r] by (simp add: rowZones_pairs(1))
  have 4: "dr_zones dr ! r ! k =
              \<lparr>zone_start = wall_i (rowWalls ?g ?m r ! k) + 1,
               zone_end = wall_i (rowWalls ?g ?m r ! (k + 1)),
               leftX = cell_x (?g ! r ! wall_i (rowWalls ?g ?m r ! k)) +
                       cell_w (?g ! r ! wall_i (rowWalls ?g ?m r ! k)),
               rightX = cell_x (?g ! r ! wall_i (rowWalls ?g ?m r ! (k + 1)))\<rparr>"
    if "r < length ?g" "2 \<le> length (rowWalls ?g ?m r)" "k < length (rowWalls ?g ?m r) - 1"
    for r k
    using that z(2) [of r] by (simp add: rowZones_pairs(2))
  show ?thesis using 1 2 3 4 unfolding Let_def by blast
qed

theorem C7_row_zones_witness:
  "\<exists>dr. render (defaultScrub None) True (js ''ab'' @ [c_newline] @ js ''|cd|'') = Inr dr \<and>
     dr_zones dr ! 0 = [\<lparr>zone_start = 0, zone_end = 2, leftX = 12, rightX = 60\<rparr>] \<and>
     dr_zones dr ! 1 = [\<lparr>zone_start = 1, zone_end = 3, leftX = 24, rightX = 48\<rparr>]"
proof -
  let ?S = "defaultScrub None"
  let ?in = "js ''ab'' @ [c_newline] @ js ''|cd|''"
  let ?l0 = "[97, 98]"
  let ?l1 = "[124, 99, 100, 124]"
  let ?r0 = "[\<lparr>cell_char = [97], cell_x = 12, cell_y = 24, cell_cx = 18, cell_cy = 36,
      cell_w = 12, cell_cols = Suc 0, partOfStrokedBox = False\<rparr>,
     \<lparr>cell_char = [98], cell_x = 24, cell_y = 24, cell_cx = 30, cell_cy = 36,
      cell_w = 12, cell_cols = Suc 0, partOfStrokedBox = False\<rparr>]"
  let ?r1 = "[\<lparr>cell_char = [124], cell_x = 12, cell_y = 48, cell_cx = 18, cell_cy = 60,
      cell_w = 12, cell_cols = Suc 0, partOfStrokedBox = False\<rparr>,
     \<lparr>cell_char = [99], cell_x = 24, cell_y = 48, cell_cx = 30, cell_cy = 60,
      cell_w = 12, cell_cols = Suc 0, partOfStrokedBox = False\<rparr>,
     \<lparr>cell_char = [100], cell_x = 36, cell_y = 48, cell_cx = 42, cell_cy = 60,
      cell_w = 12, cell_cols = Suc 0, partOfStrokedBox = False\<rparr>,
     \<lparr>cell_char = [124], cell_x = 48, cell_y = 48, cell_cx = 54, cell_cy = 60,
      cell_w = 12, cell_cols = Suc 0, partOfStrokedBox = False\<rparr>]"
  let ?g = "[?r0, ?r1]"
  have sp: "splitGraphemes None ?l0 = map (\<lambda>c. [c]) ?l0"
           "splitGraphemes None ?l1 = map (\<lambda>c. [c]) ?l1"
    by (simp_all add: splitGraphemes_def isHighSurrogate_def)
  have p: "parseDocument None ?in =
      [\<lparr>rawLine = ?l0, cleanLine = ?l0, markers = [], hadMarkers = False\<rparr>,
       \<lparr>rawLine = ?l1, cleanLine = ?l1, markers = [], hadMarkers = False\<rparr>]"
    by (simp add: doc_eval_simps)
  have m: "documentRichMode None ?in = False"
    unfolding documentRichMode_def p
    by (simp add: detectRichMode_def testClass_def RICH_MODE_DETECTOR_def glyph_defs)
  have b: "detectRectangularBoxes None [?l0, ?l1] = []"
    by (simp add: detectRectangularBoxes_def boxesAt_def sp gAt_def isTopLeftCorner_def
        isTopRightCorner_def isHorizontalBoxEdge_def glyph_defs Let_def upt_rec)
  have g0: "buildGrid ?S False [?l0, ?l1] = ?g"
    by (simp add: grid_eval_simps sp)
  have g: "renderGrid ?S ?in = ?g"
    unfolding renderGrid_def Let_def defaultScrub_simps p m
    by (simp add: b g0 collectBoxStyles_def tagStrokedBoxes_def)
  have w: "maxPixelW ?S False [?l0, ?l1] = 60"
    by (simp add: grid_eval_simps sp)
  have w0: "rowWalls ?g False 0 = []"
    by (simp add: rowWalls_def isWallCell_def isVert_def isCorner_def testClass_def
        ASCII_VERTICAL_CHARS_def CORNER_CHARS_def glyph_defs Let_def upt_rec)
  have w1: "rowWalls ?g False 1 = [\<lparr>wall_i = 0, wall_x = 12\<rparr>, \<lparr>wall_i = 3, wall_x = 48\<rparr>]"
    by (simp add: rowWalls_def isWallCell_def isVert_def isCorner_def testClass_def
        ASCII_VERTICAL_CHARS_def CORNER_CHARS_def glyph_defs Let_def upt_rec)
  obtain dr where dr: "render ?S True ?in = Inr dr" using render_total by blast
  have width: "dr_width dr = 72"
    using render_zones(3) [OF dr] unfolding defaultScrub_simps p m by (simp add: w)
  note c7 = C7_row_zones [OF dr, unfolded g defaultScrub_simps m]
  have z0: "dr_zones dr ! 0 = [\<lparr>zone_start = 0, zone_end = 2, leftX = 12, rightX = 60\<rparr>]"
    using c7 w0 width by simp
  have z1: "dr_zones dr ! 1 = [\<lparr>zone_start = 1, zone_end = 3, leftX = 24, rightX = 48\<rparr>]"
  proof -
    from c7 w1 have "length (dr_zones dr ! 1) = 1" by simp
    moreover from c7 w1 have "dr_zones dr ! 1 ! 0 =
       \<lparr>zone_start = 1, zone_end = 3, leftX = 24, rightX = 48\<rparr>"
      by (simp add: Let_def)
    ultimately show ?thesis by (cases "dr_zones dr ! 1") auto
  qed
  show ?thesis using dr z0 z1 by blast
qed

subsection \<open>Auto-format always returns\<close>

lemma jsRepeat_nonneg: "0 \<le> n \<Longrightarrow> jsRepeat s n = Inr (concat (replicate (nat n) s))"
  by (simp add: jsRepeat_def)

lemma centerLine_total:
  "\<exists>lp rp. centerLine seg m maxW meta ind pre suf content =
     Inr (finishLine seg meta (ind @ pre @ replicate lp c_space @ content @ replicate rp c_space @ suf))"
proof -
  have p: "0 \<le> (max 0 a) div 2" "0 \<le> max 0 a - (max 0 a) div 2" for a :: int
    by simp_all
  have r: "concat (replicate n [c]) = replicate n c" for n and c :: nat
    by (induction n) simp_all
  show ?thesis
    unfolding centerLine_def Let_def
    by (simp only: jsRepeat_nonneg [OF p(1)] jsRepeat_nonneg [OF p(2)] bindE_def sum.case r) blast
qed

lemma fillLine_total:
  "0 \<le> diff \<Longrightarrow> \<exists>n. fillLine seg diff meta ind pre mid suf =
     Inr (finishLine seg meta (ind @ pre @ mid @ replicate n (fillCharOf pre mid suf) @ suf))"
proof -
  have r: "concat (replicate n [c]) = replicate n c" for n and c :: nat
    by (induction n) simp_all
  assume "0 \<le> diff"
  then show ?thesis
    unfolding fillLine_def
    by (simp only: jsRepeat_nonneg bindE_def sum.case r) blast
qed

lemma padLine_total:
  assumes "0 \<le> diff"
  shows "\<exists>out. padLine seg m maxW diff line meta ind pre mid suf = Inr out"
  using centerLine_total [of seg m maxW meta ind pre suf] fillLine_total [OF assms, of seg meta ind pre mid suf]
  unfolding padLine_def Let_def
  by (auto split: option.splits)

lemma formatLine_total:
  assumes "visW \<le> maxVisWidth"
  shows "\<exists>out. formatLine seg isRichMode maxVisWidth line visW lineMeta = Inr out"
proof -
  have d: "0 \<le> int maxVisWidth - int visW" using assms by simp
  show ?thesis
    unfolding formatLine_def Let_def
    using padLine_total [OF d] by auto
qed


lemma mapE_total:
  "(\<And>x. x \<in> set xs \<Longrightarrow> \<exists>y. f x = Inr y) \<Longrightarrow>
   \<exists>ys. mapE f xs = Inr ys \<and> length ys = length xs \<and> (\<forall>i<length xs. f (xs ! i) = Inr (ys ! i))"
proof (induction xs)
  case Nil
  then show ?case by simp
next
  case (Cons x xs)
  then obtain y where y: "f x = Inr y" by auto
  from Cons obtain ys where ys: "mapE f xs = Inr ys" "length ys = length xs"
    "\<forall>i<length xs. f (xs ! i) = Inr (ys ! i)" by auto
  have "\<forall>i<length (x # xs). f ((x # xs) ! i) = Inr ((y # ys) ! i)"
    using y ys(3) by (auto simp: nth_Cons split: nat.splits)
  then show ?case using y ys by (auto simp: bindE_def)
qed

lemma mapE_Inr_D:
  "mapE f xs = Inr ys \<Longrightarrow> length ys = length xs \<and> (\<forall>i<length xs. f (xs ! i) = Inr (ys ! i))"
proof (induction xs arbitrary: ys)
  case Nil
  then show ?case by simp
next
  case (Cons x xs)
  from Cons.prems obtain y ys' where y: "f x = Inr y" and m: "mapE f xs = Inr ys'"
    and e: "ys = y # ys'"
    by (auto simp: bindE_def split: sum.splits)
  from Cons.IH [OF m] have "length ys' = length xs" "\<forall>i<length xs. f (xs ! i) = Inr (ys' ! i)"
    by auto
  then show ?case using y e by (auto simp: nth_Cons split: nat.splits)
qed

lemma foldl_max_ge_init:
  "m0 \<le> foldl (\<lambda>m (line, visW, lineMeta). if visW > m then visW else m) (m0::nat) xs"
proof (induction xs arbitrary: m0)
  case Nil
  then show ?case by simp
next
  case (Cons x xs)
  obtain l v mt where x: "x = (l, v, mt)" by (cases x) auto
  have "(if v > m0 then v else m0) \<le>
        foldl (\<lambda>m (line, visW, lineMeta). if visW > m then visW else m) (if v > m0 then v else m0) xs"
    by (rule Cons.IH)
  then show ?case using x by (auto split: if_splits)
qed

lemma foldl_max_ge_elem:
  "(l, v, mt) \<in> set xs \<Longrightarrow>
   v \<le> foldl (\<lambda>m (line, visW, lineMeta). if visW > m then visW else m) (m0::nat) xs"
proof (induction xs arbitrary: m0)
  case Nil
  then show ?case by simp
next
  case (Cons x xs)
  obtain l' v' mt' where x: "x = (l', v', mt')" by (cases x) auto
  show ?case
  proof (cases "(l, v, mt) = x")
    case True
    then have "v \<le> (if v' > m0 then v' else m0)" using x by auto
    also have "\<dots> \<le> foldl (\<lambda>m (line, visW, lineMeta). if visW > m then visW else m)
                         (if v' > m0 then v' else m0) xs"
      by (rule foldl_max_ge_init)
    finally show ?thesis using x by simp
  next
    case False
    then have "(l, v, mt) \<in> set xs" using Cons.prems by auto
    from Cons.IH [OF this] show ?thesis using x by simp
  qed
qed

lemma formatBlock_total: "\<exists>out. formatBlock seg m blk = Inr out"
proof (cases "map fst blk = [[]]")
  case True
  then show ?thesis by (simp add: formatBlock_def)
next
  case False
  let ?stats = "map (\<lambda>(line, lineMeta). (line, getTextDisplayWidth seg line m, lineMeta)) blk"
  let ?max = "foldl (\<lambda>m (line, visW, lineMeta). if visW > m then visW else m) 0 ?stats"
  have "\<exists>y. (\<lambda>(line, visW, lineMeta). formatLine seg m ?max line visW lineMeta) x = Inr y"
    if "x \<in> set ?stats" for x
  proof -
    obtain l v mt where x: "x = (l, v, mt)" by (cases x) auto
    then have "v \<le> ?max" using that foldl_max_ge_elem by fast
    then show ?thesis using x formatLine_total by auto
  qed
  then have "\<exists>ys. mapE (\<lambda>(line, visW, lineMeta). formatLine seg m ?max line visW lineMeta)
        ?stats = Inr ys \<and> length ys = length ?stats \<and>
        (\<forall>i<length ?stats. (\<lambda>(line, visW, lineMeta). formatLine seg m ?max line visW lineMeta)
            (?stats ! i) = Inr (ys ! i))"
    by (rule mapE_total)
  then obtain ys where
    "mapE (\<lambda>(line, visW, lineMeta). formatLine seg m ?max line visW lineMeta) ?stats = Inr ys"
    by blast
  then show ?thesis using False by (simp add: formatBlock_def Let_def bindE_def)
qed

lemma autoFormat_total: "\<exists>out. autoFormat this ascii = Inr out"
proof -
  obtain ys where "mapE (formatBlock (segmenter this) (documentRichMode (segmenter this) ascii))
     (collectBlocks (parseDocument (segmenter this) ascii) [] []) = Inr ys"
    using mapE_total [of _ "formatBlock (segmenter this) (documentRichMode (segmenter this) ascii)"]
      formatBlock_total by blast
  then show ?thesis by (simp add: autoFormat_def Let_def bindE_def)
qed

text \<open>
  C9. \<^verbatim>\<open>autoFormat\<close> returns a string for every input and every instance: neither call
  of \<^verbatim>\<open>repeat\<close> ever receives a negative count. The string is determined by the input
  and the instance's segmenter alone: two instances with the same segmenter, whatever
  their other settings, return the same string.
\<close>

theorem C9_autoFormat_total:
  "\<exists>out. autoFormat this ascii = Inr out \<and>
     (\<forall>other. segmenter other = segmenter this \<longrightarrow> autoFormat other ascii = Inr out)"
proof -
  obtain out where "autoFormat this ascii = Inr out" using autoFormat_total by blast
  then show ?thesis by (auto simp: autoFormat_def)
qed

theorem C9_autoFormat_total_witness:
  "\<exists>out. autoFormat (defaultScrub None) (js ''|a|'') = Inr out \<and>
      autoFormat (construct \<lparr>cellWidth = Some 10, cellHeight = Some 30, optColor = None,
                optStrokeWidth = None\<rparr> None) (js ''|a|'') = Inr out"
proof -
  have s: "segmenter (construct \<lparr>cellWidth = Some 10, cellHeight = Some 30, optColor = None,
                optStrokeWidth = None\<rparr> None) = segmenter (defaultScrub None)"
    by (simp add: construct_def defaultScrub_def)
  show ?thesis using C9_autoFormat_total [of "defaultScrub None" "js ''|a|''"] s by blast
qed

subsection \<open>Auto-format keeps the line structure\<close>

lemma splitOn_not_Nil [simp]: "splitOn d s \<noteq> []"
  by (induction s) (auto split: list.splits)

lemma splitOn_no_delim: "l \<in> set (splitOn d s) \<Longrightarrow> d \<notin> set l"
proof (induction s arbitrary: l)
  case Nil
  then show ?case by simp
next
  case (Cons c cs)
  show ?case
  proof (cases "c = d")
    case True
    then show ?thesis using Cons by auto
  next
    case False
    obtain x xs where sp: "splitOn d cs = x # xs" by (cases "splitOn d cs") auto
    then have "d \<notin> set x" "\<forall>y\<in>set xs. d \<notin> set y" using Cons.IH by auto
    then show ?thesis using Cons.prems False sp by auto
  qed
qed

lemma splitOn_append_delim:
  "d \<notin> set x \<Longrightarrow> splitOn d (x @ d # rest) = x # splitOn d rest"
  by (induction x) auto

lemma splitOn_no_delim_id: "d \<notin> set x \<Longrightarrow> splitOn d x = [x]"
  by (induction x) auto

lemma splitOn_joinWith:
  "xs \<noteq> [] \<Longrightarrow> (\<forall>x\<in>set xs. d \<notin> set x) \<Longrightarrow> splitOn d (joinWith [d] xs) = xs"
proof (induction "[d]" xs rule: joinWith.induct)
  case 1
  then show ?case by simp
next
  case (2 x)
  then show ?case by (simp add: splitOn_no_delim_id)
next
  case (3 x y ys)
  then show ?case by (simp add: splitOn_append_delim)
qed

lemma length_splitOn_filter:
  "P d \<Longrightarrow> length (splitOn d (filter P s)) = length (splitOn d s)"
proof (induction s)
  case Nil
  then show ?case by simp
next
  case (Cons c cs)
  then show ?case
    by (cases "splitOn d cs"; cases "splitOn d (filter P cs)") auto
qed

lemma joinWith_concat:
  "(\<forall>xs\<in>set xss. xs \<noteq> []) \<Longrightarrow> joinWith d (map (joinWith d) xss) = joinWith d (concat xss)"
proof (induction xss)
  case Nil
  then show ?case by simp
next
  case (Cons xs xss)
  have app: "joinWith d (as @ bs) = joinWith d as @ d @ joinWith d bs"
    if "as \<noteq> []" "bs \<noteq> []" for as bs
    using that by (induction d as rule: joinWith.induct) (auto simp: neq_Nil_conv)
  show ?case
  proof (cases xss)
    case Nil
    then show ?thesis by simp
  next
    case (Cons ys yss)
    then have ne: "concat xss \<noteq> []" using Cons.prems by auto
    have "joinWith d (map (joinWith d) (xs # xss)) =
          joinWith d xs @ d @ joinWith d (map (joinWith d) xss)"
      using Cons by simp
    also have "\<dots> = joinWith d xs @ d @ joinWith d (concat xss)"
      using Cons.IH Cons.prems by simp
    also have "\<dots> = joinWith d (xs @ concat xss)"
      using app [of xs "concat xss"] Cons.prems ne by simp
    finally show ?thesis by simp
  qed
qed

lemma set_trimEnd_subset: "set (trimEnd s) \<subseteq> set s"
proof
  fix c assume "c \<in> set (trimEnd s)"
  then have "c \<in> set (dropWhile isJsSpace (rev s))" by (simp add: trimEnd_def)
  then have "c \<in> set (rev s)" by (rule set_dropWhileD)
  then show "c \<in> set s" by simp
qed

lemma set_trim_subset: "set (trim s) \<subseteq> set s"
proof
  fix c assume "c \<in> set (trim s)"
  then have "c \<in> set (trimStart s)" using set_trimEnd_subset by (auto simp: trim_def)
  then show "c \<in> set s" unfolding trimStart_def by (rule set_dropWhileD)
qed

lemma trimEnd_prefix: "\<exists>rest. s = trimEnd s @ rest"
proof -
  have "rev (takeWhile isJsSpace (rev s) @ dropWhile isJsSpace (rev s)) = rev (rev s)"
    by (simp only: takeWhile_dropWhile_id)
  then have "rev (dropWhile isJsSpace (rev s)) @ rev (takeWhile isJsSpace (rev s)) = s"
    by (simp only: rev_append rev_rev_ident)
  then have "s = trimEnd s @ rev (takeWhile isJsSpace (rev s))"
    by (simp only: trimEnd_def)
  then show ?thesis by blast
qed

lemma trimEnd_idem: "trimEnd (trimEnd s) = trimEnd s"
  by (simp add: trimEnd_def)

lemma trimStart_trimEnd:
  assumes "s = [] \<or> \<not> isJsSpace (hd s)"
  shows "trimStart (trimEnd s) = trimEnd s"
proof (cases "trimEnd s")
  case Nil
  then show ?thesis by (simp add: trimStart_def)
next
  case (Cons x xs)
  obtain rest where "s = trimEnd s @ rest" using trimEnd_prefix by blast
  then have "hd s = x" using Cons by (metis append_Cons list.sel(1))
  moreover have "s \<noteq> []" using Cons by (auto simp: trimEnd_def)
  ultimately have "\<not> isJsSpace x" using assms by auto
  then show ?thesis using Cons by (simp add: trimStart_def)
qed

lemma trim_trim: "trim (trim s) = trim s"
proof -
  have "trimStart s = [] \<or> \<not> isJsSpace (hd (trimStart s))"
    unfolding trimStart_def using hd_dropWhile by blast
  then have "trimStart (trimEnd (trimStart s)) = trimEnd (trimStart s)"
    by (rule trimStart_trimEnd)
  then have "trimEnd (trimStart (trimEnd (trimStart s))) = trimEnd (trimStart s)"
    by (simp only: trimEnd_idem)
  then show ?thesis by (simp only: trim_def)
qed

lemma safe_plain:
  assumes "isSafeColorValue v"
  shows "trim v \<noteq> [] \<and> (\<forall>c\<in>set (trim v). plainColorChar c)"
proof -
  let ?t = "trim v"
  from assms have ne: "?t \<noteq> []" by (auto simp: isSafeColorValue_def Let_def split: if_splits)
  from assms have "matchHex 3 ?t \<or> matchHex 6 ?t \<or> list_all isAsciiLetter ?t"
    by (auto simp: isSafeColorValue_def Let_def split: if_splits)
  then have "\<forall>c\<in>set ?t. plainColorChar c"
  proof (elim disjE)
    assume "list_all isAsciiLetter ?t"
    then show ?thesis using letter_plain by (auto simp: list_all_iff)
  next
    assume "matchHex 3 ?t"
    then show ?thesis using hexDigit_plain hash_plain
      by (cases ?t) (auto simp: matchHex_def list_all_iff)
  next
    assume "matchHex 6 ?t"
    then show ?thesis using hexDigit_plain hash_plain
      by (cases ?t) (auto simp: matchHex_def list_all_iff)
  qed
  then show ?thesis using ne by simp
qed

lemma trim_plain_id:
  assumes "s \<noteq> []" "\<forall>c\<in>set s. plainColorChar c"
  shows "trim s = s"
  using plain_string_checks(1) [OF assms] .

lemma key_names_noNl:
  "k \<in> {js ''bg'', js ''stroke'', js ''color''} \<Longrightarrow> c_newline \<notin> set k \<and> c_lbrace \<notin> set k \<and> c_rbrace \<notin> set k"
  by (auto simp: js_def glyph_defs)

lemma onMarkerMatch_valid:
  assumes "\<forall>m\<in>set (ps_markers st). validMarker m"
  shows "\<forall>m\<in>set (ps_markers (onMarkerMatch seg pre g1 g2 st)). validMarker m"
proof -
  have "validMarker \<lparr>key = toLowerCase g1, val = trim g2, index = i\<rparr>"
    if k: "toLowerCase g1 = js ''bg'' \<or> toLowerCase g1 = js ''stroke'' \<or> toLowerCase g1 = js ''color''"
      and s: "isSafeColorValue (trim g2)" for i
  proof -
    from safe_plain [OF s] have "trim g2 \<noteq> []" "\<forall>c\<in>set (trim g2). plainColorChar c"
      by (simp_all add: trim_trim)
    then show ?thesis using k s by (auto simp: validMarker_def)
  qed
  then show ?thesis using assms
    by (auto simp: onMarkerMatch_def Let_def)
qed

lemma parseLoop_valid:
  "\<forall>m\<in>set (ps_markers st). validMarker m \<Longrightarrow>
   \<forall>m\<in>set (ps_markers (parseLoop seg pre s st)). validMarker m"
proof (induction seg pre s st rule: parseLoop.induct)
  case (1 seg pre st)
  then show ?case by simp
next
  case (2 seg pre c cs st)
  show ?case
  proof (cases "matchMarkerAt (c # cs)")
    case None
    then show ?thesis using 2 by simp
  next
    case (Some t)
    obtain g1 g2 rest where t: "t = (g1, g2, rest)" by (cases t) auto
    have "\<forall>m\<in>set (ps_markers (onMarkerMatch seg pre g1 g2 st)). validMarker m"
      using 2(3) by (rule onMarkerMatch_valid)
    from 2(2) [OF Some t [symmetric] refl this] show ?thesis using Some t by simp
  qed
qed

lemma parseLineMarkers_valid:
  "\<forall>m\<in>set (markers (parseLineMarkers seg l)). validMarker m"
  using parseLoop_valid [of "\<lparr>ps_cleanLine = [], ps_cleanIndex = 0, ps_markers = [], ps_hadMarkers = False\<rparr>" seg "[]" l]
  by (simp add: parseLineMarkers_def Let_def)

lemma markerText_noNl: "validMarker m \<Longrightarrow> c_newline \<notin> set (markerText m)"
  using key_names_noNl [of "key m"]
  by (auto simp: validMarker_def markerText_def plainColorChar_def glyph_defs)

lemma concat_arrayFrom: "concat (arrayFrom s) = s"
  by (induction s rule: arrayFrom.induct) auto

lemma segmenterPartitions_None: "segmenterPartitions None"
  by (simp add: segmenterPartitions_def splitGraphemes_def concat_arrayFrom)

lemma set_insertMarkers:
  "set (concat (insertMarkers gs off ms)) \<subseteq> set (concat gs) \<union> (\<Union>m\<in>set ms. set (markerText m))"
proof (induction gs off ms rule: insertMarkers.induct)
  case (1 graphemes offset)
  then show ?case by simp
next
  case (2 graphemes offset marker rest)
  let ?i = "min (length graphemes) (index marker + offset)"
  have "set (concat (take ?i graphemes @ [markerText marker] @ drop ?i graphemes)) =
        set (concat graphemes) \<union> set (markerText marker)"
  proof -
    have "set (concat (take ?i graphemes)) \<union> set (concat (drop ?i graphemes)) =
          set (concat (take ?i graphemes @ drop ?i graphemes))"
      by (simp only: concat_append set_append)
    then show ?thesis by (auto simp only: concat_append set_append append_take_drop_id concat.simps append_Nil2)
  qed
  then show ?case using 2 by (auto simp: Let_def)
qed

lemma finishLine_noNl:
  assumes "segmenterPartitions seg" "c_newline \<notin> set nextLine"
    "\<forall>m\<in>set (markers meta). validMarker m"
  shows "c_newline \<notin> set (finishLine seg meta nextLine)"
proof (cases "hadMarkers meta \<and> markers meta \<noteq> []")
  case False
  then show ?thesis using assms(2) by (auto simp: finishLine_def injectMarkersIntoLine_def)
next
  case True
  let ?ms = "sort_key index (markers meta)"
  have c: "concat (splitGraphemes seg nextLine) = nextLine"
    using assms(1) by (simp add: segmenterPartitions_def)
  have "set (concat (insertMarkers (splitGraphemes seg nextLine) 0 ?ms))
        \<subseteq> set (concat (splitGraphemes seg nextLine)) \<union> (\<Union>m\<in>set ?ms. set (markerText m))"
    by (rule set_insertMarkers)
  moreover have "c_newline \<notin> (\<Union>m\<in>set ?ms. set (markerText m))"
    using assms(3) markerText_noNl by auto
  ultimately have "c_newline \<notin> set (concat (insertMarkers (splitGraphemes seg nextLine) 0 ?ms))"
    using assms(2) c by auto
  then show ?thesis using True by (simp add: finishLine_def injectMarkersIntoLine_def)
qed

lemma finishLine_blank [simp]: "finishLine seg blankMeta [] = []"
  by (simp add: finishLine_def blankMeta_def)

lemma fillCharOf_fillers: "fillCharOf pre mid suf \<in> fillers"
  by (simp add: fillCharOf_def fillers_def Let_def)

lemma centeredContentOf_Some: "centeredContentOf t = Some c \<Longrightarrow> c = t"
  by (auto simp: centeredContentOf_def split: if_splits)

lemma padLine_shape:
  assumes d: "0 \<le> diff"
    and sub: "set ind \<union> set pre \<union> set mid \<union> set suf \<subseteq> set line"
  shows "\<exists>X. padLine seg m maxW diff line meta ind pre mid suf = Inr (finishLine seg meta X) \<and>
           set X \<subseteq> set line \<union> fillers"
proof -
  let ?cc = "centeredContentOf (trim mid)"
  have fin: "\<exists>X. Inr (finishLine seg meta line) = Inr (finishLine seg meta X) \<and>
           set X \<subseteq> set line \<union> fillers" by blast
  have center: "\<exists>X. centerLine seg m maxW meta ind pre suf content = Inr (finishLine seg meta X) \<and>
           set X \<subseteq> set line \<union> fillers" if "?cc = Some content" for content
  proof -
    from that have "content = trim mid" by (rule centeredContentOf_Some)
    then have c: "set content \<subseteq> set line" using set_trim_subset sub by fastforce
    from centerLine_total [of seg m maxW meta ind pre suf content] obtain lp rp where
      "centerLine seg m maxW meta ind pre suf content =
        Inr (finishLine seg meta (ind @ pre @ replicate lp c_space @ content @ replicate rp c_space @ suf))"
      by blast
    moreover have "set (ind @ pre @ replicate lp c_space @ content @ replicate rp c_space @ suf)
        \<subseteq> set line \<union> fillers"
      using c sub by (auto simp: fillers_def)
    ultimately show ?thesis by blast
  qed
  have fill: "\<exists>X. fillLine seg diff meta ind pre mid suf = Inr (finishLine seg meta X) \<and>
           set X \<subseteq> set line \<union> fillers"
  proof -
    from fillLine_total [OF d, of seg meta ind pre mid suf] obtain n where
      "fillLine seg diff meta ind pre mid suf =
        Inr (finishLine seg meta (ind @ pre @ mid @ replicate n (fillCharOf pre mid suf) @ suf))"
      by blast
    moreover have "set (ind @ pre @ mid @ replicate n (fillCharOf pre mid suf) @ suf)
        \<subseteq> set line \<union> fillers"
      using sub fillCharOf_fillers [of pre mid suf] by auto
    ultimately show ?thesis by blast
  qed
  show ?thesis
    unfolding padLine_def Let_def
    using fin center fill by (cases ?cc) auto
qed

lemma isStructure_Nil [simp]: "\<not> isStructure [] m"
  by (simp add: isStructure_def testClass_def)

lemma boundary_subsets:
  fixes lwi :: jstring and m :: bool
  defines "mid1 \<equiv> (if lwi \<noteq> [] \<and> isStructure [hd lwi] m then tl lwi else lwi)"
  shows "set (if lwi \<noteq> [] \<and> isStructure [hd lwi] m then [hd lwi] else []) \<subseteq> set lwi"
    and "set (if mid1 \<noteq> [] \<and> isStructure [last mid1] m then butlast mid1 else mid1) \<subseteq> set lwi"
    and "set (if mid1 \<noteq> [] \<and> isStructure [last mid1] m then [last mid1] else []) \<subseteq> set lwi"
proof -
  have t: "set (tl lwi) \<subseteq> set lwi" by (cases lwi) auto
  then have m1: "set mid1 \<subseteq> set lwi" by (auto simp: mid1_def)
  show "set (if lwi \<noteq> [] \<and> isStructure [hd lwi] m then [hd lwi] else []) \<subseteq> set lwi"
    by auto
  have "set (butlast mid1) \<subseteq> set mid1" by (auto dest: in_set_butlastD)
  then show "set (if mid1 \<noteq> [] \<and> isStructure [last mid1] m then butlast mid1 else mid1)
       \<subseteq> set lwi"
    using m1 by auto
  have "mid1 \<noteq> [] \<Longrightarrow> last mid1 \<in> set mid1" by (rule last_in_set)
  then show "set (if mid1 \<noteq> [] \<and> isStructure [last mid1] m then [last mid1] else []) \<subseteq> set lwi"
    using m1 by auto
qed

lemma formatLine_shape:
  assumes "visW \<le> maxW"
  shows "\<exists>X. formatLine seg m maxW line visW meta = Inr (finishLine seg meta X) \<and>
           set X \<subseteq> set line \<union> fillers \<and> (line = [] \<longrightarrow> X = [])"
proof (cases "line = []")
  case True
  then show ?thesis
    by (simp add: formatLine_def isConnectorStub_def trim_def trimStart_def trimEnd_def)
next
  case False
  let ?ind = "takeWhile isJsSpace line"
  let ?lwi = "drop (length ?ind) line"
  let ?hasPrefix = "?lwi \<noteq> [] \<and> isStructure [hd ?lwi] m"
  let ?pre = "if ?hasPrefix then [hd ?lwi] else []"
  let ?mid1 = "if ?hasPrefix then tl ?lwi else ?lwi"
  let ?hasSuffix = "?mid1 \<noteq> [] \<and> isStructure [last ?mid1] m"
  let ?suf = "if ?hasSuffix then [last ?mid1] else []"
  let ?mid = "if ?hasSuffix then butlast ?mid1 else ?mid1"
  have d: "0 \<le> int maxW - int visW" using assms by simp
  have i: "set ?ind \<subseteq> set line" by (auto dest: set_takeWhileD)
  have l: "set ?lwi \<subseteq> set line" by (auto dest: in_set_dropD)
  note bs = boundary_subsets [of ?lwi m]
  have sub: "set ?ind \<union> set ?pre \<union> set ?mid \<union> set ?suf \<subseteq> set line"
    using i l bs by blast
  from padLine_shape [OF d sub] obtain X where
    X: "padLine seg m maxW (int maxW - int visW) line meta ?ind ?pre ?mid ?suf =
          Inr (finishLine seg meta X)" "set X \<subseteq> set line \<union> fillers"
    by blast
  have fin: "\<exists>X. Inr (finishLine seg meta line) = Inr (finishLine seg meta X) \<and>
           set X \<subseteq> set line \<union> fillers \<and> (line = [] \<longrightarrow> X = [])" by blast
  show ?thesis
    unfolding formatLine_def Let_def
    using fin X False by (auto simp only: split: if_splits)
qed

lemma fillers_noNl: "c_newline \<notin> fillers"
  by (simp add: fillers_def glyph_defs)

lemma formatLine_lineOut:
  assumes "segmenterPartitions seg" "visW \<le> maxW" "okLine (line, meta)"
    and "formatLine seg m maxW line visW meta = Inr out"
  shows "lineOut (line, meta) out"
proof -
  from formatLine_shape [OF assms(2), of seg m line meta] assms(4) obtain X where
    X: "out = finishLine seg meta X" "set X \<subseteq> set line \<union> fillers" "line = [] \<longrightarrow> X = []"
    by auto
  have "c_newline \<notin> set X" using X(2) assms(3) fillers_noNl by (auto simp: okLine_def)
  then have "c_newline \<notin> set out"
    using finishLine_noNl [OF assms(1)] assms(3) X(1) by (simp add: okLine_def)
  moreover have "out = []" if "(line, meta) = ([], blankMeta)"
    using that X by simp
  ultimately show ?thesis by (simp add: lineOut_def)
qed

lemma list_all2_from_nth:
  "length xs = length ys \<Longrightarrow> (\<And>i. i < length xs \<Longrightarrow> P (xs ! i) (ys ! i)) \<Longrightarrow> list_all2 P xs ys"
  by (simp add: list_all2_conv_all_nth)

lemma formatBlock_lines:
  assumes part: "segmenterPartitions seg" and ok: "\<forall>lm\<in>set blk. okLine lm" and ne: "blk \<noteq> []"
    and res: "formatBlock seg m blk = Inr out"
  shows "\<exists>ls. out = joinWith [c_newline] ls \<and> list_all2 lineOut blk ls"
proof (cases "map fst blk = [[]]")
  case True
  then have out: "out = []" using res by (simp add: formatBlock_def)
  from True obtain meta where b: "blk = [([], meta)]" by (cases blk) auto
  have "list_all2 lineOut blk [[]]" using b by (simp add: lineOut_def)
  moreover have "out = joinWith [c_newline] [[]]" using out by simp
  ultimately show ?thesis by blast
next
  case False
  let ?stats = "map (\<lambda>(line, lineMeta). (line, getTextDisplayWidth seg line m, lineMeta)) blk"
  let ?max = "foldl (\<lambda>m (line, visW, lineMeta). if visW > m then visW else m) 0 ?stats"
  let ?f = "\<lambda>(line, visW, lineMeta). formatLine seg m ?max line visW lineMeta"
  have fb: "formatBlock seg m blk =
      bindE (mapE ?f ?stats) (\<lambda>formatted. Inr (joinWith [c_newline] formatted))"
    unfolding formatBlock_def Let_def using False by (simp only: if_False)
  obtain ls where ls: "mapE ?f ?stats = Inr ls" and out: "out = joinWith [c_newline] ls"
  proof (cases "mapE ?f ?stats")
    case (Inl e)
    then have "formatBlock seg m blk = Inl e" unfolding fb by (simp only: bindE_def sum.case)
    then show ?thesis using res by simp
  next
    case (Inr ls)
    then have "formatBlock seg m blk = Inr (joinWith [c_newline] ls)"
      unfolding fb by (simp only: bindE_def sum.case)
    then have "out = joinWith [c_newline] ls" using res by simp
    then show ?thesis using Inr that by blast
  qed
  from mapE_Inr_D [OF ls] have len': "length ls = length ?stats"
    and each: "\<And>i. i < length ?stats \<Longrightarrow> ?f (?stats ! i) = Inr (ls ! i)" by blast+
  have len: "length ls = length blk" using len' by (simp only: length_map)
  have "lineOut (blk ! i) (ls ! i)" if i: "i < length blk" for i
  proof -
    obtain l mt where lm: "blk ! i = (l, mt)" by (cases "blk ! i") blast
    let ?v = "getTextDisplayWidth seg l m"
    have i': "i < length ?stats" using i by (simp only: length_map)
    have st: "?stats ! i = (l, ?v, mt)" using i by (simp only: nth_map lm case_prod_conv)
    have "?stats ! i \<in> set ?stats" using i' by (rule nth_mem)
    then have "(l, ?v, mt) \<in> set ?stats" by (simp only: st)
    then have v: "?v \<le> ?max" by (rule foldl_max_ge_elem)
    have "?f (?stats ! i) = Inr (ls ! i)" using i' by (rule each)
    then have f: "formatLine seg m ?max l ?v mt = Inr (ls ! i)"
      by (simp only: st case_prod_conv)
    have "blk ! i \<in> set blk" using i by (rule nth_mem)
    then have "okLine (l, mt)" using ok lm by auto
    from formatLine_lineOut [OF part v this f] show ?thesis by (simp only: lm)
  qed
  then have "list_all2 lineOut blk ls" using len by (intro list_all2_from_nth) auto
  then show ?thesis using out by blast
qed

lemma formatBlocks_lines:
  assumes part: "segmenterPartitions seg"
  shows "(\<forall>b\<in>set blocks. b \<noteq> [] \<and> (\<forall>lm\<in>set b. okLine lm)) \<Longrightarrow>
         mapE (formatBlock seg m) blocks = Inr outs \<Longrightarrow>
         \<exists>lss. outs = map (joinWith [c_newline]) lss \<and> list_all2 (list_all2 lineOut) blocks lss"
proof (induction blocks arbitrary: outs)
  case Nil
  then show ?case by simp
next
  case (Cons b blocks)
  from Cons.prems(2) obtain o1 os where o1: "formatBlock seg m b = Inr o1"
    and os: "mapE (formatBlock seg m) blocks = Inr os" and outs: "outs = o1 # os"
    by (auto simp: bindE_def split: sum.splits)
  from Cons.prems(1) have b: "b \<noteq> []" "\<forall>lm\<in>set b. okLine lm" by auto
  from formatBlock_lines [OF part b(2) b(1) o1] obtain ls where
    ls: "o1 = joinWith [c_newline] ls" "list_all2 lineOut b ls" by blast
  from Cons.IH [OF _ os] Cons.prems(1) obtain lss where
    lss: "os = map (joinWith [c_newline]) lss" "list_all2 (list_all2 lineOut) blocks lss" by auto
  have "outs = map (joinWith [c_newline]) (ls # lss)" using outs ls lss by simp
  moreover have "list_all2 (list_all2 lineOut) (b # blocks) (ls # lss)" using ls lss by simp
  ultimately show ?case by blast
qed

lemma list_all2_concat:
  "list_all2 (list_all2 P) xss yss \<Longrightarrow> list_all2 P (concat xss) (concat yss)"
  by (induction xss yss rule: list_all2_induct) (auto intro: list_all2_appendI)

lemma concat_pushCurrent: "concat (pushCurrent blocks cur) = concat blocks @ cur"
  by (simp add: pushCurrent_def)

lemma collectBlocks_blank:
  "trim (cleanLine p) = [] \<Longrightarrow>
   collectBlocks (p # ps) blocks cur =
     collectBlocks ps (pushCurrent blocks cur @ [[([], blankMeta)]]) []"
  by (simp add: Let_def)

lemma collectBlocks_text:
  "trim (cleanLine p) \<noteq> [] \<Longrightarrow>
   collectBlocks (p # ps) blocks cur = collectBlocks ps blocks (cur @ [(cleanLine p, p)])"
  by (simp add: Let_def)

lemma collectBlocks_concat:
  "concat (collectBlocks ps blocks cur) = concat blocks @ cur @ map lineOf ps"
proof (induction ps arbitrary: blocks cur)
  case Nil
  then show ?case by (simp add: concat_pushCurrent)
next
  case (Cons p ps)
  show ?case
  proof (cases "trim (cleanLine p) = []")
    case True
    have "concat (collectBlocks (p # ps) blocks cur) =
          concat (pushCurrent blocks cur @ [[([], blankMeta)]]) @ [] @ map lineOf ps"
      by (simp only: collectBlocks_blank [OF True] Cons.IH)
    then show ?thesis using True by (simp add: concat_pushCurrent lineOf_def)
  next
    case False
    have "concat (collectBlocks (p # ps) blocks cur) =
          concat blocks @ (cur @ [(cleanLine p, p)]) @ map lineOf ps"
      by (simp only: collectBlocks_text [OF False] Cons.IH)
    then show ?thesis using False by (simp add: lineOf_def)
  qed
qed

lemma collectBlocks_nonempty:
  "\<forall>b\<in>set blocks. b \<noteq> [] \<Longrightarrow> \<forall>b\<in>set (collectBlocks ps blocks cur). b \<noteq> []"
proof (induction ps arbitrary: blocks cur)
  case Nil
  then show ?case by (auto simp: pushCurrent_def)
next
  case (Cons p ps)
  show ?case
  proof (cases "trim (cleanLine p) = []")
    case True
    have "\<forall>b\<in>set (pushCurrent blocks cur @ [[([], blankMeta)]]). b \<noteq> []"
      using Cons.prems by (auto simp: pushCurrent_def)
    from Cons.IH [OF this] show ?thesis by (simp only: collectBlocks_blank [OF True])
  next
    case False
    from Cons.IH [OF Cons.prems] show ?thesis by (simp only: collectBlocks_text [OF False])
  qed
qed

lemma length_parseDocument:
  "length (parseDocument seg ascii) = length (splitOn c_newline ascii)"
proof -
  have "\<not> ((0x200B \<le> c_newline \<and> c_newline \<le> 0x200D) \<or> c_newline = 0xFEFF)"
    by (simp add: glyph_defs)
  then have "length (splitOn c_newline (removeZeroWidth ascii)) = length (splitOn c_newline ascii)"
    unfolding removeZeroWidth_def
    by (intro length_splitOn_filter)
  then show ?thesis by (simp add: parseDocument_def)
qed

lemma parseDocument_okLine:
  assumes "p \<in> set (parseDocument seg ascii)"
  shows "okLine (lineOf p)"
proof -
  from assms obtain l where l: "l \<in> set (splitOn c_newline (removeZeroWidth ascii))"
    and p: "p = parseLineMarkers seg (stripTrailingCR l)"
    by (auto simp: parseDocument_def)
  have "c_newline \<notin> set l" using l by (rule splitOn_no_delim)
  then have "c_newline \<notin> set (stripTrailingCR l)" using set_stripTrailingCR by blast
  then have c: "c_newline \<notin> set (cleanLine p)" using set_cleanLine_parse p by blast
  have v: "\<forall>m\<in>set (markers p). validMarker m" unfolding p by (rule parseLineMarkers_valid)
  show ?thesis using c v by (simp add: lineOf_def okLine_def blankMeta_def)
qed

text \<open>
  C10. For a segmenter whose segments concatenate to the string it was given,
  \<^verbatim>\<open>autoFormat\<close> returns a string that has as many lines as its input (both split on
  the newline character), and every input line that is blank (its clean line trims to
  the empty string) is an empty line at the same index of the output.
\<close>

theorem C10_autoFormat_keeps_lines:
  assumes part: "segmenterPartitions (segmenter this)"
  shows "\<exists>out. autoFormat this ascii = Inr out \<and>
     length (splitOn c_newline out) = length (splitOn c_newline ascii) \<and>
     (\<forall>i<length (splitOn c_newline ascii).
        trim (cleanLine (parseDocument (segmenter this) ascii ! i)) = [] \<longrightarrow>
        splitOn c_newline out ! i = [])"
proof -
  let ?seg = "segmenter this"
  let ?m = "documentRichMode ?seg ascii"
  let ?parsed = "parseDocument ?seg ascii"
  let ?blocks = "collectBlocks ?parsed [] []"
  obtain out where out: "autoFormat this ascii = Inr out" using autoFormat_total by blast
  then obtain outs where outs: "mapE (formatBlock ?seg ?m) ?blocks = Inr outs"
    and o: "out = joinWith [c_newline] outs"
    by (auto simp: autoFormat_def Let_def bindE_def split: sum.splits)
  have flat: "concat ?blocks = map lineOf ?parsed"
    using collectBlocks_concat [of ?parsed "[]" "[]"] by simp
  have ne: "\<forall>b\<in>set ?blocks. b \<noteq> []" by (rule collectBlocks_nonempty) simp
  have ok: "\<forall>b\<in>set ?blocks. \<forall>lm\<in>set b. okLine lm"
  proof (intro ballI)
    fix b lm assume "b \<in> set ?blocks" "lm \<in> set b"
    then have "lm \<in> set (concat ?blocks)" by auto
    then obtain p where "p \<in> set ?parsed" "lm = lineOf p" unfolding flat by auto
    then show "okLine lm" using parseDocument_okLine by blast
  qed
  from formatBlocks_lines [OF part _ outs] ne ok obtain lss where
    lss: "outs = map (joinWith [c_newline]) lss" "list_all2 (list_all2 lineOut) ?blocks lss"
    by blast
  have lne: "\<forall>ls\<in>set lss. ls \<noteq> []"
  proof
    fix ls assume "ls \<in> set lss"
    then obtain j where j: "j < length lss" "ls = lss ! j" by (auto simp: in_set_conv_nth)
    then have "list_all2 lineOut (?blocks ! j) ls" "?blocks ! j \<in> set ?blocks"
      using lss(2) by (auto simp: list_all2_conv_all_nth)
    then show "ls \<noteq> []" using ne by auto
  qed
  let ?outLines = "concat lss"
  have o': "out = joinWith [c_newline] ?outLines"
    using o lss(1) joinWith_concat [OF lne] by simp
  have rel: "list_all2 lineOut (map lineOf ?parsed) ?outLines"
    using list_all2_concat [OF lss(2)] flat by simp
  then have len: "length ?outLines = length (splitOn c_newline ascii)"
    by (auto dest: list_all2_lengthD simp: length_parseDocument)
  then have "?outLines \<noteq> []" by (metis length_0_conv splitOn_not_Nil)
  moreover have "\<forall>l\<in>set ?outLines. c_newline \<notin> set l"
  proof
    fix l assume "l \<in> set ?outLines"
    then obtain k where k: "k < length ?outLines" "l = ?outLines ! k"
      by (metis in_set_conv_nth)
    then have "lineOut (map lineOf ?parsed ! k) l"
      using rel by (simp add: list_all2_conv_all_nth)
    then show "c_newline \<notin> set l" by (simp add: lineOut_def)
  qed
  ultimately have sp: "splitOn c_newline out = ?outLines"
    unfolding o' by (rule splitOn_joinWith)
  have "?outLines ! i = []"
    if "i < length (splitOn c_newline ascii)" "trim (cleanLine (?parsed ! i)) = []" for i
  proof -
    have i: "i < length ?parsed" using that(1) by (simp add: length_parseDocument)
    then have "lineOut (lineOf (?parsed ! i)) (?outLines ! i)"
      using rel by (auto simp: list_all2_conv_all_nth)
    then show ?thesis using that(2) by (simp add: lineOf_def lineOut_def)
  qed
  then show ?thesis using out sp len by auto
qed

theorem C10_autoFormat_keeps_lines_witness:
  "segmenterPartitions (segmenter (defaultScrub None)) \<and>
   (\<exists>out. autoFormat (defaultScrub None) (js ''|a|'' @ [c_newline] @ js '' '' @ [c_newline] @ js ''b'') = Inr out \<and>
      length (splitOn c_newline out) = 3 \<and> splitOn c_newline out ! 1 = [])"
proof -
  let ?in = "js ''|a|'' @ [c_newline] @ js '' '' @ [c_newline] @ js ''b''"
  have p: "segmenterPartitions (segmenter (defaultScrub None))"
    by (simp add: defaultScrub_simps segmenterPartitions_None)
  have l: "length (splitOn c_newline ?in) = 3"
    by (simp add: js_def glyph_defs)
  have b: "trim (cleanLine (parseDocument (segmenter (defaultScrub None)) ?in ! 1)) = []"
    by (simp add: defaultScrub_simps doc_eval_simps trim_def trimStart_def trimEnd_def)
  show ?thesis using C10_autoFormat_keeps_lines [OF p, of ?in] p l b by auto
qed

subsection \<open>The scan of a line in pieces\<close>

lemma takeWhile_run:
  "(\<And>x. x \<in> set xs \<Longrightarrow> P x) \<Longrightarrow> \<not> P y \<Longrightarrow> takeWhile P (xs @ y # ys) = xs"
  by (simp add: takeWhile_append2)

lemma dropWhile_run:
  "(\<And>x. x \<in> set xs \<Longrightarrow> P x) \<Longrightarrow> \<not> P y \<Longrightarrow> dropWhile P (xs @ y # ys) = y # ys"
  by (simp add: dropWhile_append2)

lemma key_names_letters:
  "k \<in> {js ''bg'', js ''stroke'', js ''color''} \<Longrightarrow>
     k \<noteq> [] \<and> list_all isLowerAscii k"
  by (auto simp: js_def isLowerAscii_def)

lemma matchMarkerAt_markerText:
  assumes v: "validMarker m"
  shows "matchMarkerAt (markerText m @ rest) = Some (key m, val m, rest)"
proof -
  let ?k = "key m" and ?v = "val m"
  from v have kn: "?k \<noteq> []" and kl: "\<And>c. c \<in> set ?k \<Longrightarrow> isAsciiLetter c"
    using key_names_letters [of ?k] by (auto simp: validMarker_def list_all_iff isAsciiLetter_def)
  from v have vn: "?v \<noteq> []" and vp: "\<And>c. c \<in> set ?v \<Longrightarrow> plainColorChar c"
    by (auto simp: validMarker_def)
  have vb: "\<And>c. c \<in> set ?v \<Longrightarrow> c \<noteq> c_rbrace" using vp by (auto simp: plainColorChar_def)
  have hs: "\<not> isJsSpace c_hash" "\<not> isJsSpace c_colon" "\<not> isAsciiLetter c_colon"
    by (simp_all add: isJsSpace_def isAsciiLetter_def isUpperAscii_def isLowerAscii_def glyph_defs)
  have t1: "takeWhile isAsciiLetter (?k @ c_colon # ?v @ c_rbrace # rest) = ?k"
    using kl hs(3) by (rule takeWhile_run)
  have d1: "dropWhile isAsciiLetter (?k @ c_colon # ?v @ c_rbrace # rest) = c_colon # ?v @ c_rbrace # rest"
    using kl hs(3) by (rule dropWhile_run)
  have t2: "takeWhile (\<lambda>c. c \<noteq> c_rbrace) (?v @ c_rbrace # rest) = ?v"
    by (rule takeWhile_run) (use vb in auto)
  have d2: "dropWhile (\<lambda>c. c \<noteq> c_rbrace) (?v @ c_rbrace # rest) = c_rbrace # rest"
    by (rule dropWhile_run) (use vb in auto)
  have "\<not> isJsSpace (hd ?v)" "\<not> isJsSpace (last ?v)"
    using vn vp by (auto simp: plainColorChar_def)
  then have d3: "dropWhile isJsSpace ?v = ?v" and te: "trimEnd ?v = ?v"
    using vn trimStart_id [of ?v] trimEnd_id [of ?v] by (simp_all add: trimStart_def)
  have nb: "\<not> (\<forall>c\<in>set ?v. isJsSpace c)"
    using vn vp by (cases ?v) (auto simp: plainColorChar_def)
  show ?thesis
    using nb by (auto simp add: markerText_def matchMarkerAt_def hs t1 d1 t2 d2 d3 te kn vn Let_def)
qed

lemma class_facts:
  "\<not> isJsSpace c_hash" "\<not> isJsSpace c_colon" "\<not> isAsciiLetter c_colon"
  "isJsSpace c \<Longrightarrow> \<not> isAsciiLetter c"
  "isJsSpace c \<Longrightarrow> c \<noteq> c_lbrace" "isJsSpace c \<Longrightarrow> c \<noteq> c_rbrace"
  "isAsciiLetter c \<Longrightarrow> c \<noteq> c_lbrace" "isAsciiLetter c \<Longrightarrow> c \<noteq> c_rbrace"
  "c_hash \<noteq> c_lbrace" "c_colon \<noteq> c_lbrace" "c_hash \<noteq> c_rbrace" "c_colon \<noteq> c_rbrace"
  "c_lbrace \<noteq> c_rbrace"
  "\<not> isJsSpace c_lbrace" "\<not> isJsSpace c_rbrace" "\<not> isAsciiLetter c_lbrace"
  "\<not> isAsciiLetter c_rbrace"
  by (auto simp: isJsSpace_def isAsciiLetter_def isUpperAscii_def isLowerAscii_def glyph_defs)

lemma takeWhile_stop:
  "(\<And>x. x \<in> set xs \<Longrightarrow> P x) \<Longrightarrow> ys = [] \<or> \<not> P (hd ys) \<Longrightarrow> takeWhile P (xs @ ys) = xs"
  by (cases ys) (simp_all add: takeWhile_append2)

lemma dropWhile_stop:
  "(\<And>x. x \<in> set xs \<Longrightarrow> P x) \<Longrightarrow> ys = [] \<or> \<not> P (hd ys) \<Longrightarrow> dropWhile P (xs @ ys) = ys"
  by (cases ys) (simp_all add: dropWhile_append2)

lemma dropWhile_ConsD:
  "dropWhile P xs = y # ys \<Longrightarrow> xs = takeWhile P xs @ y # ys \<and> \<not> P y"
  by (metis takeWhile_dropWhile_id hd_dropWhile list.sel(1) list.distinct(1))

lemma header_facts:
  assumes "isHeader H k"
  shows "H \<noteq> []" "hd H = c_lbrace" "c_lbrace \<notin> set (tl H)" "c_rbrace \<notin> set H"
  using assms class_facts by (auto simp: isHeader_def)

lemma matchMarkerAt_text:
  assumes "matchMarkerAt s = Some (k, g, rest)"
  shows "\<exists>M. s = M @ rest \<and> isMatchText M k g"
proof -
  from assms have "\<exists>s1 s2 s3 x. s = c_lbrace # s1 \<and> dropWhile isJsSpace s1 = c_hash # s2 \<and>
      k = takeWhile isAsciiLetter s2 \<and> k \<noteq> [] \<and>
      dropWhile isJsSpace (dropWhile isAsciiLetter s2) = c_colon # s3 \<and>
      takeWhile (\<lambda>c. c \<noteq> c_rbrace) s3 \<noteq> [] \<and>
      dropWhile (\<lambda>c. c \<noteq> c_rbrace) s3 = x # rest \<and>
      g = groupOf (takeWhile (\<lambda>c. c \<noteq> c_rbrace) s3)"
    by (auto simp: matchMarkerAt_def Let_def groupOf_def split: list.splits if_splits)
  then obtain s1 s2 s3 x where s: "s = c_lbrace # s1"
    and d1: "dropWhile isJsSpace s1 = c_hash # s2"
    and k: "k = takeWhile isAsciiLetter s2" and kn: "k \<noteq> []"
    and d2: "dropWhile isJsSpace (dropWhile isAsciiLetter s2) = c_colon # s3"
    and bn: "takeWhile (\<lambda>c. c \<noteq> c_rbrace) s3 \<noteq> []"
    and d3: "dropWhile (\<lambda>c. c \<noteq> c_rbrace) s3 = x # rest"
    and g: "g = groupOf (takeWhile (\<lambda>c. c \<noteq> c_rbrace) s3)"
    by blast
  let ?ws1 = "takeWhile isJsSpace s1"
  let ?ws2 = "takeWhile isJsSpace (dropWhile isAsciiLetter s2)"
  let ?body = "takeWhile (\<lambda>c. c \<noteq> c_rbrace) s3"
  let ?H = "c_lbrace # ?ws1 @ c_hash # k @ ?ws2 @ [c_colon]"
  from dropWhile_ConsD [OF d3] have x: "x = c_rbrace" and e3: "s3 = ?body @ c_rbrace # rest"
    by auto
  from dropWhile_ConsD [OF d2] have e2: "dropWhile isAsciiLetter s2 = ?ws2 @ c_colon # s3" by simp
  have e2': "s2 = k @ dropWhile isAsciiLetter s2" unfolding k by simp
  from dropWhile_ConsD [OF d1] have e1: "s1 = ?ws1 @ c_hash # s2" by simp
  have "s1 = ?ws1 @ c_hash # k @ ?ws2 @ c_colon # ?body @ c_rbrace # rest"
    using e1 e2 e2' e3 by (metis append_assoc)
  then have eq: "s = (?H @ ?body @ [c_rbrace]) @ rest" using s by simp
  have h: "isHeader ?H k"
    unfolding isHeader_def using kn
    by (intro exI [of _ ?ws1] exI [of _ ?ws2]) (auto simp: k dest: set_takeWhileD)
  have "c_rbrace \<notin> set ?body" by (auto dest: set_takeWhileD)
  then have "isMatchText (?H @ ?body @ [c_rbrace]) k g"
    unfolding isMatchText_def using h bn g by blast
  then show ?thesis using eq by blast
qed

lemma matchMarkerAt_of_text:
  assumes "isMatchText M k g"
  shows "matchMarkerAt (M @ Z) = Some (k, g, Z)"
proof -
  from assms obtain H body ws1 ws2 where M: "M = H @ body @ [c_rbrace]"
    and H: "H = c_lbrace # ws1 @ c_hash # k @ ws2 @ [c_colon]"
    and w1: "\<And>c. c \<in> set ws1 \<Longrightarrow> isJsSpace c" and kn: "k \<noteq> []"
    and kl: "\<And>c. c \<in> set k \<Longrightarrow> isAsciiLetter c"
    and w2: "\<And>c. c \<in> set ws2 \<Longrightarrow> isJsSpace c"
    and bn: "body \<noteq> []" and bb: "c_rbrace \<notin> set body" and g: "g = groupOf body"
    unfolding isMatchText_def isHeader_def by blast
  let ?R3 = "body @ c_rbrace # Z"
  let ?R2 = "ws2 @ c_colon # ?R3"
  let ?R1 = "k @ ?R2"
  have e: "M @ Z = c_lbrace # ws1 @ c_hash # ?R1" unfolding M H by simp
  have a1: "dropWhile isJsSpace (ws1 @ c_hash # ?R1) = c_hash # ?R1"
    using w1 class_facts(1) by (rule dropWhile_run)
  have nl: "?R2 = [] \<or> \<not> isAsciiLetter (hd ?R2)"
    using w2 class_facts(3,4) by (cases ws2) auto
  have a2: "takeWhile isAsciiLetter ?R1 = k" using kl nl by (rule takeWhile_stop)
  have a3: "dropWhile isAsciiLetter ?R1 = ?R2" using kl nl by (rule dropWhile_stop)
  have a4: "dropWhile isJsSpace ?R2 = c_colon # ?R3"
    using w2 class_facts(2) by (rule dropWhile_run)
  have a5: "takeWhile (\<lambda>c. c \<noteq> c_rbrace) ?R3 = body"
    by (rule takeWhile_run) (use bb in auto)
  have a6: "dropWhile (\<lambda>c. c \<noteq> c_rbrace) ?R3 = c_rbrace # Z"
    by (rule dropWhile_run) (use bb in auto)
  show ?thesis
    unfolding e matchMarkerAt_def
    by (simp only: list.case if_False if_True simp_thms a1 a2 a3 a4 a5 a6 kn bn Let_def g groupOf_def
        option.case)
qed

lemma matchText_facts:
  assumes "isMatchText M k g"
  shows "M \<noteq> []" "hd M = c_lbrace" "last M = c_rbrace" "c_rbrace \<notin> set (butlast M)" "butlast M \<noteq> []"
  using assms header_facts
  by (auto simp: isMatchText_def butlast_append)

lemma native_extends:
  assumes n: "nativeBefore P W" and q: "q < length P"
    and m: "matchMarkerAt (drop q P @ X) = Some (k, g, r)"
  shows "length r < length X"
proof (rule ccontr)
  assume "\<not> length r < length X"
  then have le: "length X \<le> length r" by simp
  from matchMarkerAt_text [OF m] obtain T where T: "drop q P @ X = T @ r" and mt: "isMatchText T k g"
    by blast
  from T le obtain a' where "drop q P = T @ a'"
    by (auto simp: append_eq_append_conv2 dest: arg_cong [where f = length])
  then have "matchMarkerAt (drop q P @ W) = Some (k, g, a' @ W)"
    using matchMarkerAt_of_text [OF mt, of "a' @ W"] by simp
  then show False using n q by (simp add: nativeBefore_def)
qed

lemma ends_at_first_rbrace:
  assumes "u \<noteq> []" "last u = c_rbrace" "c_rbrace \<notin> set (butlast u)"
    and "v \<noteq> []" "last v = c_rbrace" "c_rbrace \<notin> set (butlast v)"
    and "u @ r = v @ z"
  shows "u = v"
proof -
  have u: "u = butlast u @ [c_rbrace]" using assms(1,2) by (metis append_butlast_last_id)
  have v: "v = butlast v @ [c_rbrace]" using assms(4,5) by (metis append_butlast_last_id)
  have "takeWhile (\<lambda>c. c \<noteq> c_rbrace) (butlast u @ c_rbrace # r) = butlast u"
    by (rule takeWhile_run) (use assms(3) in auto)
  moreover have "takeWhile (\<lambda>c. c \<noteq> c_rbrace) (butlast v @ c_rbrace # z) = butlast v"
    by (rule takeWhile_run) (use assms(6) in auto)
  moreover have "butlast u @ c_rbrace # r = butlast v @ c_rbrace # z"
    using assms(7) u v by (metis append_Cons append_Nil append_assoc)
  ultimately have "butlast u = butlast v" by simp
  then show ?thesis using u v by metis
qed

lemma append_longer:
  "a @ X = T @ r \<Longrightarrow> length a < length T \<Longrightarrow> \<exists>t'. T = a @ t' \<and> t' \<noteq> [] \<and> t' @ r = X"
  by (auto simp: append_eq_append_conv2)

lemma native_any_marker:
  assumes pn: "pieceNative P" and m1: "isMatchText M1 k1 g1"
  shows "nativeBefore P (M1 @ Z)"
  unfolding nativeBefore_def
proof (intro allI impI, rule ccontr)
  fix q assume q: "q < length P" and "matchMarkerAt (drop q P @ M1 @ Z) \<noteq> None"
  then obtain k g r where m: "matchMarkerAt (drop q P @ M1 @ Z) = Some (k, g, r)" by auto
  from pn obtain M0 k0 g0 R where m0: "isMatchText M0 k0 g0" and n0: "nativeBefore P (M0 @ R)"
    unfolding pieceNative_def by blast
  let ?a = "drop q P"
  have an: "?a \<noteq> []" using q by simp
  from native_extends [OF n0 q m] have lr: "length r < length (M1 @ Z)" .
  from matchMarkerAt_text [OF m] obtain T where T: "?a @ M1 @ Z = T @ r" and mt: "isMatchText T k g"
    by blast
  have "length ?a < length T" using T lr by (auto dest: arg_cong [where f = length])
  with append_longer [OF T] obtain t' where Tt: "T = ?a @ t'" and tn: "t' \<noteq> []"
    and tr: "t' @ r = M1 @ Z" by blast
  note f1 = matchText_facts [OF m1] and fT = matchText_facts [OF mt] and f0 = matchText_facts [OF m0]
  have lt: "last t' = c_rbrace" using fT(3) Tt tn by simp
  have "butlast T = ?a @ butlast t'" using Tt tn by (simp add: butlast_append)
  then have bt: "c_rbrace \<notin> set (butlast t')" using fT(4) by auto
  have t': "t' = M1" using tn lt bt f1(1,3,4) tr by (rule ends_at_first_rbrace)
  from mt obtain H body where Th: "T = H @ body @ [c_rbrace]" and h: "isHeader H k"
    and bb: "c_rbrace \<notin> set body"
    unfolding isMatchText_def by blast
  have M1b: "M1 = butlast M1 @ [c_rbrace]" using f1(1,3) by (metis append_butlast_last_id)
  have "H @ body @ [c_rbrace] = (?a @ butlast M1) @ [c_rbrace]"
    using Th Tt t' M1b by (metis append_assoc)
  then have eq: "H @ body = ?a @ butlast M1" by simp
  have hb: "hd (butlast M1) = c_lbrace" using f1(2,5) by (cases M1) (auto split: if_splits)
  note hf = header_facts [OF h]
  from eq obtain us where "(H = ?a @ us \<and> us @ body = butlast M1) \<or>
      (H @ us = ?a \<and> body = us @ butlast M1)"
    by (auto simp: append_eq_append_conv2)
  then have "\<exists>us. ?a = H @ us \<and> body = us @ butlast M1"
  proof
    assume c: "H = ?a @ us \<and> us @ body = butlast M1"
    show ?thesis
    proof (cases "us = []")
      case True
      then show ?thesis using c by auto
    next
      case False
      then have "hd us = c_lbrace" using c hb by (metis hd_append2)
      then have "c_lbrace \<in> set us" using False by (metis hd_in_set)
      moreover have "tl H = tl ?a @ us" using c an by simp
      ultimately show ?thesis using hf(3) by simp
    qed
  next
    assume "H @ us = ?a \<and> body = us @ butlast M1"
    then show ?thesis by auto
  qed
  then obtain us where a: "?a = H @ us" and b: "body = us @ butlast M1" by blast
  have M0b: "M0 = butlast M0 @ [c_rbrace]" using f0(1,3) by (metis append_butlast_last_id)
  have "isMatchText (H @ (us @ butlast M0) @ [c_rbrace]) k (groupOf (us @ butlast M0))"
    unfolding isMatchText_def using h f0(4,5) bb b
    by (intro exI [of _ H] exI [of _ "us @ butlast M0"]) auto
  moreover have "H @ (us @ butlast M0) @ [c_rbrace] = ?a @ M0" using a M0b by (metis append_assoc)
  ultimately have "isMatchText (?a @ M0) k (groupOf (us @ butlast M0))" by simp
  from matchMarkerAt_of_text [OF this, of R]
  have "matchMarkerAt (?a @ M0 @ R) \<noteq> None" by simp
  then show False using n0 q by (simp add: nativeBefore_def)
qed

lemma chunks_native:
  "nativeBefore pre s \<Longrightarrow>
     (\<forall>c\<in>set (fst (chunks pre s)). pieceNative (fst c)) \<and> nativeBefore (snd (chunks pre s)) []"
proof (induction pre s rule: chunks.induct)
  case (1 pre)
  then show ?case by simp
next
  case (2 pre c cs)
  show ?case
  proof (cases "matchMarkerAt (c # cs)")
    case None
    have "nativeBefore (pre @ [c]) cs"
      unfolding nativeBefore_def
    proof (intro allI impI)
      fix q assume "q < length (pre @ [c])"
      then have "q < length pre \<or> q = length pre" by auto
      then show "matchMarkerAt (drop q (pre @ [c]) @ cs) = None"
        using 2(3) None by (auto simp: nativeBefore_def)
    qed
    from 2(1) [OF None this] show ?thesis using None by simp
  next
    case (Some t)
    obtain k g rest where t: "t = (k, g, rest)" by (cases t) auto
    from matchMarkerAt_text [of "c # cs" k g rest] Some t
    obtain M where M: "c # cs = M @ rest" and mt: "isMatchText M k g" by auto
    have pn: "pieceNative pre"
      unfolding pieceNative_def using mt 2(3) M by metis
    have "nativeBefore [] rest" by (simp add: nativeBefore_def)
    from 2(2) [OF Some t [symmetric] refl this] pn show ?thesis
      using Some t by (auto split: prod.splits)
  qed
qed

lemma parseLoop_chunks:
  "parseLoop seg pre s st =
     (applyChunks seg st (fst (chunks pre s)))
       \<lparr>ps_cleanLine := ps_cleanLine (applyChunks seg st (fst (chunks pre s))) @ snd (chunks pre s)\<rparr>"
proof (induction seg pre s st rule: parseLoop.induct)
  case (1 seg pre st)
  then show ?case by (simp add: applyChunks_def)
next
  case (2 seg pre c cs st)
  show ?case
  proof (cases "matchMarkerAt (c # cs)")
    case None
    then show ?thesis using 2(1) [OF None] by simp
  next
    case (Some t)
    obtain k g rest where t: "t = (k, g, rest)" by (cases t) auto
    show ?thesis using 2(2) [OF Some t [symmetric] refl] Some t
      by (simp add: applyChunks_def split: prod.splits)
  qed
qed

lemma applyChunks_clean [simp]:
  "ps_cleanLine (applyChunks seg st ms) = ps_cleanLine st @ concat (map fst ms)"
  unfolding applyChunks_def by (induction ms arbitrary: st) (auto split: prod.splits)

lemma applyChunks_had [simp]:
  "ps_hadMarkers (applyChunks seg st ms) = (ps_hadMarkers st \<or> ms \<noteq> [])"
  unfolding applyChunks_def by (induction ms arbitrary: st) (auto split: prod.splits)

lemma parse_clean_chunks:
  "cleanLine (parseLineMarkers seg x) = concat (map fst (fst (chunks [] x))) @ snd (chunks [] x)"
  by (simp add: parseLineMarkers_def Let_def parseLoop_chunks [of seg "[]" x])

lemma parse_had_chunks:
  "hadMarkers (parseLineMarkers seg x) = (fst (chunks [] x) \<noteq> [])"
  by (simp add: parseLineMarkers_def Let_def parseLoop_chunks [of seg "[]" x])

lemma chunks_none:
  "(\<forall>p<length s. matchMarkerAt (drop p s) = None) \<Longrightarrow> chunks pre s = ([], pre @ s)"
proof (induction s arbitrary: pre)
  case Nil
  then show ?case by simp
next
  case (Cons c cs)
  from Cons.prems have 0: "matchMarkerAt (c # cs) = None" by force
  have "\<forall>p<length cs. matchMarkerAt (drop p cs) = None"
  proof (intro allI impI)
    fix p assume "p < length cs"
    then have "Suc p < length (c # cs)" by simp
    from Cons.prems [rule_format, OF this] show "matchMarkerAt (drop p cs) = None" by simp
  qed
  from Cons.IH [OF this, of "pre @ [c]"] 0 show ?case by simp
qed

lemma chunks_some:
  "p < length s \<Longrightarrow> matchMarkerAt (drop p s) \<noteq> None \<Longrightarrow> fst (chunks pre s) \<noteq> []"
proof (induction s arbitrary: pre p)
  case Nil
  then show ?case by simp
next
  case (Cons c cs)
  show ?case
  proof (cases "matchMarkerAt (c # cs)")
    case None
    with Cons.prems obtain p' where p: "p = Suc p'" by (cases p) auto
    with Cons.prems have "p' < length cs" "matchMarkerAt (drop p' cs) \<noteq> None" by simp_all
    from Cons.IH [OF this, of "pre @ [c]"] show ?thesis using None by simp
  next
    case (Some t)
    then show ?thesis by (auto split: prod.splits)
  qed
qed

lemma match_case_iff:
  "(case m of None \<Rightarrow> False | Some (group1, group2, rest) \<Rightarrow> length rest < n) \<longleftrightarrow>
     (\<exists>k g r. m = Some (k, g, r) \<and> length r < n)"
  by (cases m) auto

lemma seamJoins_iff:
  "seamJoins P X \<longleftrightarrow>
     (\<exists>q<length P. \<exists>k g r. matchMarkerAt (drop q P @ X) = Some (k, g, r) \<and> length r < length X)"
  unfolding seamJoins_def list_ex_iff match_case_iff by (simp add: Bex_def)

lemma match_in_clean:
  "(\<forall>P\<in>set ps. pieceNative P) \<Longrightarrow> nativeBefore sfx [] \<Longrightarrow> p < length (concat ps @ sfx) \<Longrightarrow>
   matchMarkerAt (drop p (concat ps @ sfx)) \<noteq> None \<Longrightarrow> seamsJoin ps sfx"
proof (induction ps arbitrary: p)
  case Nil
  then show ?case by (simp add: nativeBefore_def)
next
  case (Cons P ps)
  let ?X = "concat ps @ sfx"
  show ?case
  proof (cases "p < length P")
    case True
    from Cons.prems(4) True obtain k g r where m: "matchMarkerAt (drop p P @ ?X) = Some (k, g, r)"
      by auto
    from Cons.prems(1) obtain M k0 g0 R where "nativeBefore P (M @ R)"
      unfolding pieceNative_def by auto
    from native_extends [OF this True m] have "length r < length ?X" .
    then have "seamJoins P ?X" unfolding seamJoins_iff using True m by blast
    then show ?thesis by simp
  next
    case False
    then have "drop p (concat (P # ps) @ sfx) = drop (p - length P) ?X" by simp
    moreover have "p - length P < length ?X" using Cons.prems(3) False by simp
    ultimately have "seamsJoin ps sfx"
      using Cons.IH [of "p - length P"] Cons.prems by simp
    then show ?thesis by simp
  qed
qed

lemma seam_gives_match:
  "seamsJoin ps sfx \<Longrightarrow>
     \<exists>p<length (concat ps @ sfx). matchMarkerAt (drop p (concat ps @ sfx)) \<noteq> None"
proof (induction ps)
  case Nil
  then show ?case by simp
next
  case (Cons P ps)
  let ?X = "concat ps @ sfx"
  from Cons.prems have "seamJoins P ?X \<or> seamsJoin ps sfx" by simp
  then show ?case
  proof
    assume "seamJoins P ?X"
    then obtain q where "q < length P" "matchMarkerAt (drop q P @ ?X) \<noteq> None"
      unfolding seamJoins_iff by auto
    then have "q < length (concat (P # ps) @ sfx) \<and>
               matchMarkerAt (drop q (concat (P # ps) @ sfx)) \<noteq> None" by simp
    then show ?thesis by blast
  next
    assume "seamsJoin ps sfx"
    from Cons.IH [OF this] obtain p where "p < length ?X" "matchMarkerAt (drop p ?X) \<noteq> None"
      by blast
    then have "length P + p < length (concat (P # ps) @ sfx) \<and>
               matchMarkerAt (drop (length P + p) (concat (P # ps) @ sfx)) \<noteq> None" by simp
    then show ?thesis by blast
  qed
qed

subsection \<open>Parsing the clean line again\<close>

text \<open>
  C4, counterexample. The parser strips the matches of one left-to-right scan. In
  \<^verbatim>\<open>{{#x:y}#color:red}\<close> the scan removes \<^verbatim>\<open>{#x:y}\<close>; what is left, \<^verbatim>\<open>{#color:red}\<close>, is
  marker syntax, and parsing it again reports a marker.
\<close>

theorem C4_reparse_finds_marker:
  "cleanLine (parseLineMarkers None (js ''{{#x:y}#color:red}'')) = js ''{#color:red}'' \<and>
   hadMarkers (parseLineMarkers None
     (cleanLine (parseLineMarkers None (js ''{{#x:y}#color:red}''))))"
  by (simp add: parse_eval_simps)

text \<open>
  C4, amended. The pieces of a line \<open>x\<close> are the stretches of text between the matches
  that the parser strips. Parsing the clean line of \<open>x\<close> again reports a marker exactly
  when \<open>joinsAtSeam x\<close>: for some stripped match, a suffix of the piece before it,
  followed by the clean text after it, begins with marker syntax that ends beyond the
  piece. A marker found the second time therefore always spans a place where a match
  was stripped; no marker syntax is left inside a piece or in the text after the last
  match. When no piece joins, parsing the clean line returns it unchanged, with no
  markers and \<^verbatim>\<open>hadMarkers = false\<close>.
\<close>

theorem C4_reparse_clean_line:
  "(hadMarkers (parseLineMarkers seg (cleanLine (parseLineMarkers seg x))) \<longleftrightarrow> joinsAtSeam x) \<and>
   (\<not> joinsAtSeam x \<longrightarrow>
      parseLineMarkers seg (cleanLine (parseLineMarkers seg x)) =
        \<lparr>rawLine = cleanLine (parseLineMarkers seg x),
         cleanLine = cleanLine (parseLineMarkers seg x), markers = [], hadMarkers = False\<rparr>)"
proof -
  let ?ms = "fst (chunks [] x)" and ?sfx = "snd (chunks [] x)"
  let ?ps = "map fst ?ms"
  let ?c = "cleanLine (parseLineMarkers seg x)"
  let ?st0 = "\<lparr>ps_cleanLine = [], ps_cleanIndex = 0, ps_markers = [], ps_hadMarkers = False\<rparr>"
  have c: "?c = concat ?ps @ ?sfx" by (rule parse_clean_chunks)
  have j: "joinsAtSeam x = seamsJoin ?ps ?sfx" by (simp add: joinsAtSeam_def split: prod.splits)
  have "nativeBefore [] x" by (simp add: nativeBefore_def)
  from chunks_native [OF this] have nat: "\<forall>P\<in>set ?ps. pieceNative P" "nativeBefore ?sfx []"
    by auto
  have no: "chunks [] ?c = ([], ?c)" if "\<not> joinsAtSeam x"
  proof -
    have "\<forall>p<length ?c. matchMarkerAt (drop p ?c) = None"
      using match_in_clean [OF nat] that unfolding j c by blast
    from chunks_none [OF this, of "[]"] show ?thesis by simp
  qed
  have yes: "fst (chunks [] ?c) \<noteq> []" if "joinsAtSeam x"
  proof -
    from seam_gives_match that obtain p where "p < length ?c" "matchMarkerAt (drop p ?c) \<noteq> None"
      unfolding j c by blast
    then show ?thesis by (rule chunks_some)
  qed
  have 1: "hadMarkers (parseLineMarkers seg ?c) \<longleftrightarrow> joinsAtSeam x"
    unfolding parse_had_chunks using no yes by (cases "joinsAtSeam x") simp_all
  have 2: "parseLineMarkers seg ?c =
        \<lparr>rawLine = ?c, cleanLine = ?c, markers = [], hadMarkers = False\<rparr>" if "\<not> joinsAtSeam x"
    using no [OF that]
    by (simp add: parseLineMarkers_def [of seg ?c] Let_def parseLoop_chunks [of seg "[]" ?c]
        applyChunks_def)
  show ?thesis using 1 2 by blast
qed

lemmas chunk_eval_simps = parse_eval_simps trimEnd_def

theorem C4_reparse_clean_line_witness:
  "\<not> joinsAtSeam (js ''if (x) { y } {#color:red}z'') \<and>
   hadMarkers (parseLineMarkers None (js ''if (x) { y } {#color:red}z'')) \<and>
   parseLineMarkers None (cleanLine (parseLineMarkers None (js ''if (x) { y } {#color:red}z''))) =
     \<lparr>rawLine = js ''if (x) { y } z'', cleanLine = js ''if (x) { y } z'', markers = [],
      hadMarkers = False\<rparr> \<and>
   \<not> joinsAtSeam (js ''{a}{#color:red}'') \<and>
   hadMarkers (parseLineMarkers None (js ''{a}{#color:red}'')) \<and>
   parseLineMarkers None (cleanLine (parseLineMarkers None (js ''{a}{#color:red}''))) =
     \<lparr>rawLine = js ''{a}'', cleanLine = js ''{a}'', markers = [], hadMarkers = False\<rparr> \<and>
   joinsAtSeam (js ''{{#x:y}#color:red}'') \<and>
   hadMarkers (parseLineMarkers None (cleanLine (parseLineMarkers None (js ''{{#x:y}#color:red}''))))"
proof -
  let ?x = "js ''if (x) { y } {#color:red}z''"
  let ?y = "js ''{a}{#color:red}''"
  let ?z = "js ''{{#x:y}#color:red}''"
  have ch: "chunks [] ?x = ([(js ''if (x) { y } '', js ''color'', js ''red'')], js ''z'')"
    by (simp add: chunk_eval_simps)
  have nj: "\<not> joinsAtSeam ?x"
    unfolding joinsAtSeam_def ch by (simp add: seamJoins_def chunk_eval_simps upt_rec)
  have c: "cleanLine (parseLineMarkers None ?x) = js ''if (x) { y } z''"
    and h: "hadMarkers (parseLineMarkers None ?x)"
    by (simp_all add: parse_eval_simps)
  have chy: "chunks [] ?y = ([(js ''{a}'', js ''color'', js ''red'')], [])"
    by (simp add: chunk_eval_simps)
  have njy: "\<not> joinsAtSeam ?y"
    unfolding joinsAtSeam_def chy by (simp add: seamJoins_def chunk_eval_simps upt_rec)
  have cy: "cleanLine (parseLineMarkers None ?y) = js ''{a}''"
    and hy: "hadMarkers (parseLineMarkers None ?y)"
    by (simp_all add: parse_eval_simps)
  have chz: "chunks [] ?z = ([(js ''{'', js ''x'', js ''y'')], js ''#color:red}'')"
    by (simp add: chunk_eval_simps)
  have jz: "joinsAtSeam ?z"
    unfolding joinsAtSeam_def chz by (simp add: seamJoins_def chunk_eval_simps upt_rec)
  show ?thesis
    using C4_reparse_clean_line [of None ?x] C4_reparse_clean_line [of None ?y]
      C4_reparse_clean_line [of None ?z] nj h njy hy jz
    unfolding c cy by simp
qed

subsection \<open>Re-injecting markers\<close>

lemma onMarkerMatch_keeps:
  "onMarkerMatch seg P k g st =
     st\<lparr>ps_cleanLine := ps_cleanLine st @ P,
        ps_cleanIndex := ps_cleanIndex st + length (splitGraphemes seg P),
        ps_hadMarkers := True,
        ps_markers := ps_markers st @
          (if keepsMarker k g
           then [markerOfMatch k g (ps_cleanIndex st + length (splitGraphemes seg P))] else [])\<rparr>"
  by (auto simp: onMarkerMatch_def keepsMarker_def markerOfMatch_def Let_def)

lemma applyChunks_markers:
  "ps_markers (applyChunks seg st ms) = ps_markers st @ markersOf seg (ps_cleanIndex st) ms"
proof (induction ms arbitrary: st)
  case Nil
  then show ?case by (simp add: applyChunks_def)
next
  case (Cons c ms)
  obtain P k g where c: "c = (P, k, g)" by (cases c) auto
  have "applyChunks seg st (c # ms) = applyChunks seg (onMarkerMatch seg P k g st) ms"
    by (simp add: applyChunks_def c)
  then show ?case using Cons.IH [of "onMarkerMatch seg P k g st"]
    by (simp add: c onMarkerMatch_keeps)
qed

lemma parse_markers_chunks:
  "markers (parseLineMarkers seg x) = markersOf seg 0 (fst (chunks [] x))"
  by (simp add: parseLineMarkers_def Let_def parseLoop_chunks [of seg "[]" x] applyChunks_markers)

lemma nativeBefore_Cons:
  "nativeBefore (c # cs) X \<Longrightarrow> matchMarkerAt (c # cs @ X) = None \<and> nativeBefore cs X"
proof
  assume n: "nativeBefore (c # cs) X"
  from n [unfolded nativeBefore_def, rule_format, of 0]
  show "matchMarkerAt (c # cs @ X) = None" by simp
  show "nativeBefore cs X"
    unfolding nativeBefore_def
  proof (intro allI impI)
    fix q assume "q < length cs"
    then have "Suc q < length (c # cs)" by simp
    from n [unfolded nativeBefore_def, rule_format, OF this]
    show "matchMarkerAt (drop q cs @ X) = None" by simp
  qed
qed

lemma chunks_skip:
  "nativeBefore P X \<Longrightarrow> chunks pre (P @ X) = chunks (pre @ P) X"
proof (induction P arbitrary: pre)
  case Nil
  then show ?case by simp
next
  case (Cons c cs)
  from nativeBefore_Cons [OF Cons.prems] have 0: "matchMarkerAt (c # cs @ X) = None"
    and n: "nativeBefore cs X" by simp_all
  from Cons.IH [OF n, of "pre @ [c]"] 0 show ?case by simp
qed

lemma toLowerCase_idem: "toLowerCase (toLowerCase k) = toLowerCase k"
  by (simp add: toLowerCase_def isUpperAscii_def)

lemma keeps_again:
  "keepsMarker k g \<Longrightarrow> keepsMarker (toLowerCase k) (trim g)"
  "markerOfMatch (toLowerCase k) (trim g) i = markerOfMatch k g i"
  by (simp_all add: keepsMarker_def markerOfMatch_def toLowerCase_idem trim_trim)

lemma keeps_valid:
  assumes "keepsMarker k g"
  shows "validMarker (markerOfMatch k g i)"
proof -
  from assms have s: "isSafeColorValue (trim g)" by (simp add: keepsMarker_def)
  from safe_plain [OF s] have "trim g \<noteq> []" "\<forall>c\<in>set (trim g). plainColorChar c"
    by (simp_all add: trim_trim)
  then show ?thesis using assms s by (auto simp: validMarker_def keepsMarker_def markerOfMatch_def)
qed

lemma keeps_match:
  assumes "keepsMarker k g"
  shows "matchMarkerAt (markerText (markerOfMatch k g 0) @ Z) = Some (toLowerCase k, trim g, Z)"
  using matchMarkerAt_markerText [OF keeps_valid [OF assms, of 0], of Z]
  by (simp add: markerOfMatch_def)

lemma keeps_text:
  assumes "keepsMarker k g"
  shows "isMatchText (markerText (markerOfMatch k g 0)) (toLowerCase k) (trim g)"
  using matchMarkerAt_text [OF keeps_match [OF assms, of "[]"]] by simp

lemma chunks_reinjected:
  "(\<forall>c\<in>set ms. pieceNative (fst c)) \<Longrightarrow> nativeBefore sfx [] \<Longrightarrow> \<not> reinjectClashes ms sfx \<Longrightarrow>
   chunks pre (reinjected ms sfx) = merged pre ms sfx"
proof (induction ms arbitrary: pre)
  case Nil
  from chunks_skip [OF Nil(2), of pre] show ?case by simp
next
  case (Cons c ms)
  obtain P k g where c: "c = (P, k, g)" by (cases c) auto
  let ?R = "reinjected ms sfx"
  from Cons.prems have pn: "pieceNative P" and ncl: "\<not> reinjectClashes ms sfx"
    and rest: "\<forall>c\<in>set ms. pieceNative (fst c)" by (auto simp: c)
  note IH = Cons.IH [OF rest Cons.prems(2) ncl]
  show ?case
  proof (cases "keepsMarker k g")
    case True
    let ?mt = "markerText (markerOfMatch k g 0)"
    have nb: "nativeBefore P (?mt @ ?R)"
      using pn keeps_text [OF True] by (rule native_any_marker)
    obtain d ds where d: "?mt @ ?R = d # ds" by (simp add: markerText_def)
    have m: "matchMarkerAt (d # ds) = Some (toLowerCase k, trim g, ?R)"
      using keeps_match [OF True, of ?R] d by simp
    have "chunks pre (reinjected (c # ms) sfx) = chunks (pre @ P) (?mt @ ?R)"
      using chunks_skip [OF nb, of pre] True by (simp add: c)
    also have "\<dots> = ((pre @ P, toLowerCase k, trim g) # fst (chunks [] ?R), snd (chunks [] ?R))"
      unfolding d using m by (simp split: prod.splits)
    finally show ?thesis using IH [of "[]"] True by (simp add: c)
  next
    case False
    have nb: "nativeBefore P ?R"
      unfolding nativeBefore_def
    proof (intro allI impI, rule ccontr)
      fix q assume q: "q < length P" and "matchMarkerAt (drop q P @ ?R) \<noteq> None"
      then obtain k' g' r where m: "matchMarkerAt (drop q P @ ?R) = Some (k', g', r)" by auto
      from pn obtain M k0 g0 W where "nativeBefore P (M @ W)" unfolding pieceNative_def by auto
      from native_extends [OF this q m] have "length r < length ?R" .
      then have "seamJoins P ?R" unfolding seamJoins_iff using q m by blast
      then show False using Cons.prems(3) False by (simp add: c)
    qed
    have "chunks pre (reinjected (c # ms) sfx) = chunks (pre @ P) ?R"
      using chunks_skip [OF nb, of pre] False by (simp add: c)
    then show ?thesis using IH [of "pre @ P"] False by (simp add: c)
  qed
qed

lemma merged_clean:
  "concat (map fst (fst (merged pre ms sfx))) @ snd (merged pre ms sfx) =
     pre @ concat (map fst ms) @ sfx"
proof (induction ms arbitrary: pre)
  case Nil
  then show ?case by simp
next
  case (Cons c ms)
  obtain P k g where c: "c = (P, k, g)" by (cases c) auto
  show ?case using Cons.IH [of "[]"] Cons.IH [of "pre @ P"] by (simp add: c)
qed

lemma piecewise_suffix: "piecewise seg (as @ ps) \<Longrightarrow> piecewise seg ps"
  unfolding piecewise_def
proof (intro conjI allI impI ballI)
  fix bs run cs
  assume a: "(\<forall>as' run bs. as @ ps = as' @ run @ bs \<longrightarrow>
         splitGraphemes seg (concat run) = concat (map (splitGraphemes seg) run)) \<and>
      (\<forall>P\<in>set (as @ ps). concat (splitGraphemes seg P) = P)" and "ps = bs @ run @ cs"
  then have "as @ ps = (as @ bs) @ run @ cs" by simp
  with a show "splitGraphemes seg (concat run) = concat (map (splitGraphemes seg) run)" by blast
next
  fix P
  assume "(\<forall>as' run bs. as @ ps = as' @ run @ bs \<longrightarrow>
         splitGraphemes seg (concat run) = concat (map (splitGraphemes seg) run)) \<and>
      (\<forall>P\<in>set (as @ ps). concat (splitGraphemes seg P) = P)" and "P \<in> set ps"
  then show "concat (splitGraphemes seg P) = P" by simp
qed

lemma piecewise_run:
  "piecewise seg (run @ bs) \<Longrightarrow>
     length (splitGraphemes seg (concat run)) =
       sum_list (map (\<lambda>P. length (splitGraphemes seg P)) run)"
proof -
  assume "piecewise seg (run @ bs)"
  then have "splitGraphemes seg (concat run) = concat (map (splitGraphemes seg) run)"
    unfolding piecewise_def by (metis append_Nil)
  then show ?thesis by (simp add: length_concat comp_def)
qed

lemma merged_markers:
  "piecewise seg (run @ map fst ms @ [sfx]) \<Longrightarrow>
   markersOf seg i (fst (merged (concat run) ms sfx)) =
     markersOf seg (i + sum_list (map (\<lambda>P. length (splitGraphemes seg P)) run)) ms"
proof (induction ms arbitrary: run i)
  case Nil
  then show ?case by simp
next
  case (Cons c ms)
  obtain P k g where c: "c = (P, k, g)" by (cases c) auto
  let ?n = "\<lambda>P. length (splitGraphemes seg P)"
  have pw: "piecewise seg ((run @ [P]) @ map fst ms @ [sfx])" using Cons.prems by (simp add: c)
  from piecewise_run [OF pw]
  have len: "?n (concat run @ P) = sum_list (map ?n run) + ?n P" by simp
  show ?case
  proof (cases "keepsMarker k g")
    case True
    have "piecewise seg ([] @ map fst ms @ [sfx])"
      using piecewise_suffix [of seg "run @ [P]" "map fst ms @ [sfx]"] pw by simp
    from Cons.IH [OF this, of "i + ?n (concat run @ P)"]
    show ?thesis using True keeps_again [of k g] len by (simp add: c add.assoc)
  next
    case False
    from Cons.IH [OF pw, of i] show ?thesis using False by (simp add: c add.assoc)
  qed
qed

lemma markersOf_sorted:
  "sorted (map index (markersOf seg i ms)) \<and> (\<forall>m\<in>set (markersOf seg i ms). i \<le> index m)"
proof (induction ms arbitrary: i)
  case Nil
  then show ?case by simp
next
  case (Cons c ms)
  obtain P k g where c: "c = (P, k, g)" by (cases c) auto
  from Cons.IH [of "i + length (splitGraphemes seg P)"]
  show ?case by (auto simp: c markerOfMatch_def)
qed

lemma insertMarkers_reinjected:
  "(\<forall>c\<in>set ms. concat (splitGraphemes seg (fst c)) = fst c) \<Longrightarrow>
   concat (splitGraphemes seg sfx) = sfx \<Longrightarrow> length done = i + off \<Longrightarrow>
   concat (insertMarkers
      (done @ concat (map (\<lambda>c. splitGraphemes seg (fst c)) ms) @ splitGraphemes seg sfx) off
      (markersOf seg i ms)) = concat done @ reinjected ms sfx"
proof (induction ms arbitrary: "done" i off)
  case Nil
  then show ?case by simp
next
  case (Cons c ms)
  obtain P k g where c: "c = (P, k, g)" by (cases c) auto
  let ?gP = "splitGraphemes seg P"
  let ?rest = "concat (map (\<lambda>c. splitGraphemes seg (fst c)) ms) @ splitGraphemes seg sfx"
  let ?i = "i + length ?gP"
  from Cons.prems(1) have pP: "concat ?gP = P"
    and pr: "\<forall>c\<in>set ms. concat (splitGraphemes seg (fst c)) = fst c" by (simp_all add: c)
  show ?case
  proof (cases "keepsMarker k g")
    case True
    let ?m = "markerOfMatch k g ?i"
    have mt: "markerText ?m = markerText (markerOfMatch k g 0)"
      by (simp add: markerText_def markerOfMatch_def)
    have at: "min (length (done @ ?gP @ ?rest)) (index ?m + off) = length (done @ ?gP)"
      using Cons.prems(3) by (simp add: markerOfMatch_def)
    have tk: "take (length (done @ ?gP)) (done @ ?gP @ ?rest) = done @ ?gP"
      by (metis append_assoc append_eq_conv_conj)
    have dr: "drop (length (done @ ?gP)) (done @ ?gP @ ?rest) = ?rest"
      by (metis append_assoc append_eq_conv_conj)
    have step: "insertMarkers (done @ ?gP @ ?rest) off (?m # markersOf seg ?i ms) =
        insertMarkers ((done @ ?gP @ [markerText ?m]) @ ?rest) (off + 1) (markersOf seg ?i ms)"
      by (simp only: insertMarkers.simps Let_def at tk dr append_assoc)
    have l: "length (done @ ?gP @ [markerText ?m]) = ?i + (off + 1)"
      using Cons.prems(3) by simp
    from Cons.IH [OF pr Cons.prems(2) l]
    show ?thesis using True step pP mt by (simp add: c)
  next
    case False
    have l: "length (done @ ?gP) = ?i + off" using Cons.prems(3) by simp
    from Cons.IH [OF pr Cons.prems(2) l]
    show ?thesis using False pP by (simp add: c)
  qed
qed

lemma inject_reinjected:
  assumes pw: "piecewise seg (map fst ms @ [sfx])"
  shows "injectMarkersIntoLine seg (concat (map fst ms) @ sfx) (markersOf seg 0 ms) =
           reinjected ms sfx"
proof -
  let ?c = "concat (map fst ms) @ sfx"
  let ?G = "concat (map (\<lambda>c. splitGraphemes seg (fst c)) ms) @ splitGraphemes seg sfx"
  from pw have "splitGraphemes seg (concat (map fst ms @ [sfx])) =
      concat (map (splitGraphemes seg) (map fst ms @ [sfx]))"
    unfolding piecewise_def by (metis append_Nil append_Nil2)
  then have g: "splitGraphemes seg ?c = ?G" by (simp add: comp_def)
  from pw have p1: "\<forall>c\<in>set ms. concat (splitGraphemes seg (fst c)) = fst c"
    and p2: "concat (splitGraphemes seg sfx) = sfx"
    by (auto simp: piecewise_def)
  have srt: "sort_key index (markersOf seg 0 ms) = markersOf seg 0 ms"
    using markersOf_sorted [of seg 0 ms] by (intro sort_key_id_if_sorted) simp
  have ins: "concat (insertMarkers ([] @ ?G) 0 (markersOf seg 0 ms)) = concat [] @ reinjected ms sfx"
    using p1 p2 by (rule insertMarkers_reinjected) simp
  have cG: "concat ?G = ?c" using p1 p2 by (induction ms) simp_all
  show ?thesis
  proof (cases "markersOf seg 0 ms = []")
    case True
    then have "reinjected ms sfx = concat ?G" using ins by simp
    then show ?thesis using True cG by (simp add: injectMarkersIntoLine_def)
  next
    case False
    then show ?thesis using ins by (simp add: injectMarkersIntoLine_def g srt)
  qed
qed

lemmas marker_eval_simps =
  parse_eval_simps onMarkerMatch_def toLowerCase_def trim_def trimStart_def trimEnd_def
  splitGraphemes_def isHighSurrogate_def isLowSurrogate_def Let_def

lemma safe_red: "isSafeColorValue (js ''red'')"
  by (rule named_safe) (simp add: CSS_NAMED_COLORS_def)

lemma cx1_parse:
  "parseLineMarkers None (js ''{{#x:y}#color:red}'') =
     \<lparr>rawLine = js ''{{#x:y}#color:red}'', cleanLine = js ''{#color:red}'', markers = [],
      hadMarkers = True\<rparr>"
  by (simp add: marker_eval_simps)

lemma cx1_reparse:
  "parseLineMarkers None (js ''{#color:red}'') =
     \<lparr>rawLine = js ''{#color:red}'', cleanLine = [],
      markers = [\<lparr>key = js ''color'', val = js ''red'', index = 0\<rparr>], hadMarkers = True\<rparr>"
  using safe_red by (simp add: marker_eval_simps)

lemma reinject_nested_marker:
  "cleanLine (parseLineMarkers None (js ''{{#x:y}#color:red}'')) = js ''{#color:red}'' \<and>
   markers (parseLineMarkers None (js ''{{#x:y}#color:red}'')) = [] \<and>
   cleanLine (parseLineMarkers None
      (injectMarkersIntoLine None
         (cleanLine (parseLineMarkers None (js ''{{#x:y}#color:red}'')))
         (markers (parseLineMarkers None (js ''{{#x:y}#color:red}''))))) = [] \<and>
   markers (parseLineMarkers None
      (injectMarkersIntoLine None
         (cleanLine (parseLineMarkers None (js ''{{#x:y}#color:red}'')))
         (markers (parseLineMarkers None (js ''{{#x:y}#color:red}''))))) =
     [\<lparr>key = js ''color'', val = js ''red'', index = 0\<rparr>]"
  unfolding cx1_parse
  by (simp only: ParsedLineMarkers.select_convs injectMarkersIntoLine_def if_True cx1_reparse
      simp_thms)

lemma cx2_parse:
  "parseLineMarkers None ([0xD83D] @ js ''{#color:red}'' @ [0xDE00] @ js ''{#bg:red}'') =
     \<lparr>rawLine = [0xD83D] @ js ''{#color:red}'' @ [0xDE00] @ js ''{#bg:red}'',
      cleanLine = [0xD83D, 0xDE00],
      markers = [\<lparr>key = js ''color'', val = js ''red'', index = 1\<rparr>,
                 \<lparr>key = js ''bg'', val = js ''red'', index = 2\<rparr>], hadMarkers = True\<rparr>"
  using safe_red by (simp add: marker_eval_simps)

lemma cx2_inject:
  "injectMarkersIntoLine None [0xD83D, 0xDE00]
      [\<lparr>key = js ''color'', val = js ''red'', index = 1\<rparr>,
       \<lparr>key = js ''bg'', val = js ''red'', index = 2\<rparr>] =
   [0xD83D, 0xDE00] @ js ''{#color:red}{#bg:red}''"
  by (simp add: injectMarkersIntoLine_def splitGraphemes_def isHighSurrogate_def
      isLowSurrogate_def markerText_def js_def glyph_defs)

lemma cx2_reparse:
  "markers (parseLineMarkers None ([0xD83D, 0xDE00] @ js ''{#color:red}{#bg:red}'')) =
      [\<lparr>key = js ''color'', val = js ''red'', index = 1\<rparr>,
       \<lparr>key = js ''bg'', val = js ''red'', index = 1\<rparr>]"
  using safe_red by (simp add: marker_eval_simps)

lemma reinject_split_pair:
  "markers (parseLineMarkers None ([0xD83D] @ js ''{#color:red}'' @ [0xDE00] @ js ''{#bg:red}'')) =
      [\<lparr>key = js ''color'', val = js ''red'', index = 1\<rparr>,
       \<lparr>key = js ''bg'', val = js ''red'', index = 2\<rparr>] \<and>
   markers (parseLineMarkers None
      (injectMarkersIntoLine None
         (cleanLine (parseLineMarkers None
            ([0xD83D] @ js ''{#color:red}'' @ [0xDE00] @ js ''{#bg:red}'')))
         (markers (parseLineMarkers None
            ([0xD83D] @ js ''{#color:red}'' @ [0xDE00] @ js ''{#bg:red}''))))) =
      [\<lparr>key = js ''color'', val = js ''red'', index = 1\<rparr>,
       \<lparr>key = js ''bg'', val = js ''red'', index = 1\<rparr>]"
  unfolding cx2_parse
  by (simp only: ParsedLineMarkers.select_convs cx2_inject cx2_reparse simp_thms)

text \<open>
  C5, counterexample. Two lines on which parsing, injecting and parsing again differs
  from parsing once. In \<^verbatim>\<open>{{#x:y}#color:red}\<close> the clean line \<^verbatim>\<open>{#color:red}\<close> is itself
  marker syntax: the first parse has no marker, the second has one and an empty clean
  line. In the second line a surrogate pair is split by a marker and followed by another:
  \<^verbatim>\<open>Array.from\<close> counts two graphemes while parsing the pieces and one in the clean line,
  so the second marker comes back at index 1 instead of 2.
\<close>

theorem C5_reinject_changes_parse:
  "cleanLine (parseLineMarkers None (js ''{{#x:y}#color:red}'')) = js ''{#color:red}'' \<and>
   cleanLine (parseLineMarkers None
      (injectMarkersIntoLine None
         (cleanLine (parseLineMarkers None (js ''{{#x:y}#color:red}'')))
         (markers (parseLineMarkers None (js ''{{#x:y}#color:red}''))))) = [] \<and>
   markers (parseLineMarkers None ([0xD83D] @ js ''{#color:red}'' @ [0xDE00] @ js ''{#bg:red}'')) =
      [\<lparr>key = js ''color'', val = js ''red'', index = 1\<rparr>,
       \<lparr>key = js ''bg'', val = js ''red'', index = 2\<rparr>] \<and>
   markers (parseLineMarkers None
      (injectMarkersIntoLine None
         (cleanLine (parseLineMarkers None
            ([0xD83D] @ js ''{#color:red}'' @ [0xDE00] @ js ''{#bg:red}'')))
         (markers (parseLineMarkers None
            ([0xD83D] @ js ''{#color:red}'' @ [0xDE00] @ js ''{#bg:red}''))))) =
      [\<lparr>key = js ''color'', val = js ''red'', index = 1\<rparr>,
       \<lparr>key = js ''bg'', val = js ''red'', index = 1\<rparr>]"
  using reinject_nested_marker reinject_split_pair by blast

lemma arrayFrom_append:
  "a = [] \<or> \<not> isHighSurrogate (last a) \<Longrightarrow> arrayFrom (a @ b) = arrayFrom a @ arrayFrom b"
proof (induction a rule: arrayFrom.induct)
  case 1
  then show ?case by simp
next
  case (2 c)
  then show ?case by (cases b) simp_all
next
  case (3 c d cs)
  then show ?case by (auto split: if_splits)
qed

lemma piecewise_None:
  assumes "\<forall>P\<in>set ps. P = [] \<or> \<not> isHighSurrogate (last P)"
  shows "piecewise None ps"
proof -
  have run: "arrayFrom (concat run) = concat (map arrayFrom run)"
    if "set run \<subseteq> set ps" for run
    using that
  proof (induction run)
    case Nil
    then show ?case by simp
  next
    case (Cons P run)
    then have "P = [] \<or> \<not> isHighSurrogate (last P)" using assms by auto
    from arrayFrom_append [OF this, of "concat run"] Cons show ?case by simp
  qed
  have "arrayFrom (concat run) = concat (map arrayFrom run)" if "ps = as @ run @ bs" for as run bs
    by (rule run) (auto simp: that)
  then show ?thesis
    unfolding piecewise_def splitGraphemes_def
    by (simp add: concat_arrayFrom)
qed

lemma safe_Red: "isSafeColorValue (js ''Red'')"
proof -
  have "toLowerCase (js ''Red'') = js ''red''"
    by (simp add: toLowerCase_def js_def isUpperAscii_def)
  moreover have "js ''red'' \<in> set CSS_NAMED_COLORS" by (simp add: CSS_NAMED_COLORS_def)
  moreover have "\<forall>c\<in>set (js ''Red''). plainColorChar c"
    by (simp add: js_def plainColorChar_def isJsSpace_def glyph_defs)
  moreover have "js ''Red'' \<noteq> []" "list_all isAsciiLetter (js ''Red'')"
    "\<not> matchHex 3 (js ''Red'')" "\<not> matchHex 6 (js ''Red'')"
    by (simp_all add: js_def isAsciiLetter_def isUpperAscii_def isLowerAscii_def
        matchHex_def glyph_defs)
  ultimately show ?thesis
    using plain_string_checks [of "js ''Red''"]
    by (simp add: isSafeColorValue_def)
qed

lemma safe_fff: "isSafeColorValue (js ''#fff'')"
  by (rule hex_safe) (simp add: matchHex_def js_def isHexDigit_def isDigit_def glyph_defs)

lemma unsafe_1: "\<not> keepsMarker (js ''XX'') (js ''1'')"
  by (simp add: keepsMarker_def toLowerCase_def js_def isUpperAscii_def)

text \<open>
  C5, amended. Let \<open>x\<close> be a line whose pieces the segmenter segments piece by piece (no
  stripped match stands inside a grapheme of the clean line), and in which no piece
  before a dropped match (a match of unknown kind or with a rejected value) joins the
  text written back after it. Then injecting the parsed markers into the parsed clean
  line and parsing the result gives the same clean line and the same list of markers
  (keys, values and indices) as parsing \<open>x\<close>. Nothing is asked of the pieces before the
  kept markers, nor of braces elsewhere in the line: a piece before a kept marker never
  joins the marker text written back after it.
\<close>

theorem C5_reinject_stable:
  assumes sg: "segmentsByPieces seg x" and nc: "\<not> reinjectClash x"
  shows "cleanLine (parseLineMarkers seg
            (injectMarkersIntoLine seg (cleanLine (parseLineMarkers seg x))
               (markers (parseLineMarkers seg x)))) = cleanLine (parseLineMarkers seg x) \<and>
         markers (parseLineMarkers seg
            (injectMarkersIntoLine seg (cleanLine (parseLineMarkers seg x))
               (markers (parseLineMarkers seg x)))) = markers (parseLineMarkers seg x)"
proof -
  let ?ms = "fst (chunks [] x)" and ?sfx = "snd (chunks [] x)"
  let ?y = "reinjected ?ms ?sfx"
  have pw: "piecewise seg (map fst ?ms @ [?sfx])"
    using sg by (simp add: segmentsByPieces_def linePieces_def split: prod.splits)
  have ncl: "\<not> reinjectClashes ?ms ?sfx"
    using nc by (simp add: reinjectClash_def split: prod.splits)
  have "nativeBefore [] x" by (simp add: nativeBefore_def)
  from chunks_native [OF this] have nat: "\<forall>c\<in>set ?ms. pieceNative (fst c)" "nativeBefore ?sfx []"
    by auto
  have inj: "injectMarkersIntoLine seg (cleanLine (parseLineMarkers seg x))
               (markers (parseLineMarkers seg x)) = ?y"
    unfolding parse_clean_chunks parse_markers_chunks using pw by (rule inject_reinjected)
  have ch: "chunks [] ?y = merged [] ?ms ?sfx"
    using nat ncl by (rule chunks_reinjected)
  have 1: "cleanLine (parseLineMarkers seg ?y) = cleanLine (parseLineMarkers seg x)"
    unfolding parse_clean_chunks ch using merged_clean [of "[]" ?ms ?sfx] by simp
  have "piecewise seg ([] @ map fst ?ms @ [?sfx])" using pw by simp
  from merged_markers [OF this, of 0]
  have 2: "markers (parseLineMarkers seg ?y) = markers (parseLineMarkers seg x)"
    unfolding parse_markers_chunks ch by simp
  show ?thesis unfolding inj using 1 2 by simp
qed

theorem C5_reinject_stable_witness:
  "segmentsByPieces None ([0xD83D, 0xDE00] @ js ''{#color: Red }a{b{#XX:1}c{#BG:#fff}'') \<and>
   \<not> reinjectClash ([0xD83D, 0xDE00] @ js ''{#color: Red }a{b{#XX:1}c{#BG:#fff}'') \<and>
   parseLineMarkers None ([0xD83D, 0xDE00] @ js ''{#color: Red }a{b{#XX:1}c{#BG:#fff}'') =
     \<lparr>rawLine = [0xD83D, 0xDE00] @ js ''{#color: Red }a{b{#XX:1}c{#BG:#fff}'',
      cleanLine = [0xD83D, 0xDE00] @ js ''a{bc'',
      markers = [\<lparr>key = js ''color'', val = js ''Red'', index = 1\<rparr>,
                 \<lparr>key = js ''bg'', val = js ''#fff'', index = 5\<rparr>],
      hadMarkers = True\<rparr> \<and>
   injectMarkersIntoLine None ([0xD83D, 0xDE00] @ js ''a{bc'')
     [\<lparr>key = js ''color'', val = js ''Red'', index = 1\<rparr>,
      \<lparr>key = js ''bg'', val = js ''#fff'', index = 5\<rparr>] =
     [0xD83D, 0xDE00] @ js ''{#color:Red}a{bc{#bg:#fff}'' \<and>
   cleanLine (parseLineMarkers None ([0xD83D, 0xDE00] @ js ''{#color:Red}a{bc{#bg:#fff}'')) =
     [0xD83D, 0xDE00] @ js ''a{bc'' \<and>
   markers (parseLineMarkers None ([0xD83D, 0xDE00] @ js ''{#color:Red}a{bc{#bg:#fff}'')) =
     [\<lparr>key = js ''color'', val = js ''Red'', index = 1\<rparr>,
      \<lparr>key = js ''bg'', val = js ''#fff'', index = 5\<rparr>] \<and>
   segmentsByPieces None (js ''a{b{#color:red}c'') \<and>
   \<not> reinjectClash (js ''a{b{#color:red}c'') \<and>
   parseLineMarkers None (js ''a{b{#color:red}c'') =
     \<lparr>rawLine = js ''a{b{#color:red}c'', cleanLine = js ''a{bc'',
      markers = [\<lparr>key = js ''color'', val = js ''red'', index = 3\<rparr>], hadMarkers = True\<rparr> \<and>
   injectMarkersIntoLine None (js ''a{bc'') [\<lparr>key = js ''color'', val = js ''red'', index = 3\<rparr>] =
     js ''a{b{#color:red}c''"
proof -
  let ?x = "[0xD83D, 0xDE00] @ js ''{#color: Red }a{b{#XX:1}c{#BG:#fff}''"
  let ?ms = "[\<lparr>key = js ''color'', val = js ''Red'', index = 1\<rparr>,
      \<lparr>key = js ''bg'', val = js ''#fff'', index = 5\<rparr>]"
  let ?x2 = "js ''a{b{#color:red}c''"
  have ch: "chunks [] ?x =
     ([([0xD83D, 0xDE00], js ''color'', js ''Red''), (js ''a{b'', js ''XX'', js ''1''),
       (js ''c'', js ''BG'', js ''#fff'')], [])"
    by (simp add: chunk_eval_simps)
  have k1: "keepsMarker (js ''color'') (js ''Red'')"
    using safe_Red by (simp add: keepsMarker_def toLowerCase_def js_def isUpperAscii_def
      trim_def trimStart_def trimEnd_def isJsSpace_def)
  have k3: "keepsMarker (js ''BG'') (js ''#fff'')"
    using safe_fff by (simp add: keepsMarker_def toLowerCase_def js_def isUpperAscii_def
      trim_def trimStart_def trimEnd_def isJsSpace_def)
  have sg: "segmentsByPieces None ?x"
    unfolding segmentsByPieces_def linePieces_def ch
    by (simp, rule piecewise_None) (simp add: js_def isHighSurrogate_def)
  have nc: "\<not> reinjectClash ?x"
    unfolding reinjectClash_def ch
    using k1 k3 unsafe_1
    by (simp add: seamJoins_def markerText_def markerOfMatch_def chunk_eval_simps upt_rec
        toLowerCase_def isUpperAscii_def trim_def trimStart_def)
  have p: "parseLineMarkers None ?x =
     \<lparr>rawLine = ?x, cleanLine = [0xD83D, 0xDE00] @ js ''a{bc'', markers = ?ms,
      hadMarkers = True\<rparr>"
    using safe_Red safe_fff by (simp add: marker_eval_simps)
  have i: "injectMarkersIntoLine None ([0xD83D, 0xDE00] @ js ''a{bc'') ?ms =
      [0xD83D, 0xDE00] @ js ''{#color:Red}a{bc{#bg:#fff}''"
    by (simp add: injectMarkersIntoLine_def splitGraphemes_def isHighSurrogate_def
      isLowSurrogate_def markerText_def js_def glyph_defs)
  have ch2: "chunks [] ?x2 = ([(js ''a{b'', js ''color'', js ''red'')], js ''c'')"
    by (simp add: chunk_eval_simps)
  have k: "keepsMarker (js ''color'') (js ''red'')"
    using safe_red by (simp add: keepsMarker_def toLowerCase_def js_def isUpperAscii_def
      trim_def trimStart_def trimEnd_def isJsSpace_def)
  have sg2: "segmentsByPieces None ?x2"
    unfolding segmentsByPieces_def linePieces_def ch2
    by (simp, rule piecewise_None) (simp add: js_def isHighSurrogate_def)
  have nc2: "\<not> reinjectClash ?x2"
    unfolding reinjectClash_def ch2 using k by simp
  have p2: "parseLineMarkers None ?x2 =
     \<lparr>rawLine = ?x2, cleanLine = js ''a{bc'',
      markers = [\<lparr>key = js ''color'', val = js ''red'', index = 3\<rparr>], hadMarkers = True\<rparr>"
    using safe_red by (simp add: marker_eval_simps)
  have i2: "injectMarkersIntoLine None (js ''a{bc'')
      [\<lparr>key = js ''color'', val = js ''red'', index = 3\<rparr>] = js ''a{b{#color:red}c''"
    by (simp add: injectMarkersIntoLine_def splitGraphemes_def isHighSurrogate_def
      isLowSurrogate_def markerText_def js_def glyph_defs)
  have r: "cleanLine (parseLineMarkers None ([0xD83D, 0xDE00] @ js ''{#color:Red}a{bc{#bg:#fff}'')) =
       [0xD83D, 0xDE00] @ js ''a{bc'' \<and>
     markers (parseLineMarkers None ([0xD83D, 0xDE00] @ js ''{#color:Red}a{bc{#bg:#fff}'')) = ?ms"
    using C5_reinject_stable [OF sg nc] unfolding p
    by (simp only: ParsedLineMarkers.select_convs i)
  show ?thesis
    using r sg nc sg2 nc2 p p2 i i2 by (simp only: simp_thms)
qed

subsection \<open>Box styles of the drawing\<close>

lemma foldl_concat_map:
  "foldl f a (concat (map g xs)) = foldl (\<lambda>a x. foldl f a (g x)) a xs"
  by (induction xs arbitrary: a) simp_all

lemma collectBoxStyles_documentMarkers:
  "collectBoxStyles boxes parsedLines = foldl (styleStep boxes) [] (documentMarkers parsedLines)"
proof -
  show ?thesis
    unfolding collectBoxStyles_def documentMarkers_def foldl_concat_map
    by (rule foldl_cong) (auto simp: styleStep_def foldl_map)
qed

lemma documentMarkers_iff:
  "(r, m) \<in> set (documentMarkers parsedLines) \<longleftrightarrow>
     r < length parsedLines \<and> m \<in> set (markers (parsedLines ! r))"
proof
  assume "(r, m) \<in> set (documentMarkers parsedLines)"
  then show "r < length parsedLines \<and> m \<in> set (markers (parsedLines ! r))"
    by (auto simp: documentMarkers_def set_zip)
next
  assume a: "r < length parsedLines \<and> m \<in> set (markers (parsedLines ! r))"
  then have "(r, parsedLines ! r) \<in> set (zip [0..<length parsedLines] parsedLines)"
    by (auto simp: set_zip intro!: exI [of _ r])
  then show "(r, m) \<in> set (documentMarkers parsedLines)"
    using a unfolding documentMarkers_def by (auto intro!: bexI [of _ "(r, parsedLines ! r)"])
qed

lemma styleStep_skip:
  "\<not> isStyleKey (key (snd rm)) \<or> styleTarget boxes rm = None \<Longrightarrow> styleStep boxes styles rm = styles"
  by (auto simp: styleStep_def applyStyleMarker_def isStyleKey_def styleTarget_def split: option.splits)

lemma styleStep_hit:
  assumes "isStyleKey (key (snd rm))" and "styleTarget boxes rm = Some bid"
  shows "\<exists>style'. map_of (styleStep boxes styles rm) bid = Some style' \<and>
           styleField (key (snd rm)) style' = Some (val (snd rm)) \<and>
           (\<forall>k. isStyleKey k \<and> k \<noteq> key (snd rm) \<longrightarrow>
              styleField k style' = (case map_of styles bid of None \<Rightarrow> None | Some s \<Rightarrow> styleField k s))"
    and "\<And>bid'. bid' \<noteq> bid \<Longrightarrow> map_of (styleStep boxes styles rm) bid' = map_of styles bid'"
proof -
  have ne: "js ''bg'' \<noteq> js ''stroke''" by (simp add: js_def)
  from assms(2) obtain b where b: "findSmallestEnclosingBox boxes (fst rm) (index (snd rm)) = Some b"
    and bid: "bid = boxIdOf b" by (auto simp: styleTarget_def)
  show "\<exists>style'. map_of (styleStep boxes styles rm) bid = Some style' \<and>
           styleField (key (snd rm)) style' = Some (val (snd rm)) \<and>
           (\<forall>k. isStyleKey k \<and> k \<noteq> key (snd rm) \<longrightarrow>
              styleField k style' = (case map_of styles bid of None \<Rightarrow> None | Some s \<Rightarrow> styleField k s))"
    using assms(1) b bid ne
    by (auto simp: styleStep_def applyStyleMarker_def Let_def isStyleKey_def styleField_def
        map_of_mapSet_same split: option.splits)
  show "map_of (styleStep boxes styles rm) bid' = map_of styles bid'" if "bid' \<noteq> bid" for bid'
    using assms(1) b bid that
    by (auto simp: styleStep_def applyStyleMarker_def Let_def isStyleKey_def map_of_mapSet_other)
qed

text \<open>Every style in the map comes from a marker resolved to that box.\<close>

lemma styles_sound:
  "map_of (foldl (styleStep boxes) [] ps) bid = Some style \<Longrightarrow>
     (bg style \<noteq> None \<or> stroke style \<noteq> None) \<and>
     (\<forall>k v. isStyleKey k \<longrightarrow> styleField k style = Some v \<longrightarrow>
        (\<exists>rm\<in>set ps. key (snd rm) = k \<and> val (snd rm) = v \<and> styleTarget boxes rm = Some bid))"
proof (induction ps arbitrary: bid style rule: rev_induct)
  case Nil
  then show ?case by simp
next
  case (snoc rm ps)
  let ?st = "foldl (styleStep boxes) [] ps"
  have f: "foldl (styleStep boxes) [] (ps @ [rm]) = styleStep boxes ?st rm" by simp
  show ?case
  proof (cases "isStyleKey (key (snd rm)) \<and> styleTarget boxes rm \<noteq> None")
    case False
    then have "styleStep boxes ?st rm = ?st" by (intro styleStep_skip) blast
    then show ?thesis using snoc.IH [of bid style] snoc.prems f by auto
  next
    case True
    then obtain t where k: "isStyleKey (key (snd rm))" and t: "styleTarget boxes rm = Some t"
      by (cases "styleTarget boxes rm") simp_all
    note h = styleStep_hit [OF k t, where styles = ?st]
    show ?thesis
    proof (cases "bid = t")
      case False
      then have "map_of ?st bid = Some style" using h(2) [of bid] snoc.prems f by simp
      then show ?thesis using snoc.IH [of bid style] by auto
    next
      case True
      from h(1) True snoc.prems f have 1: "styleField (key (snd rm)) style = Some (val (snd rm))"
        and 2: "\<forall>k. isStyleKey k \<and> k \<noteq> key (snd rm) \<longrightarrow>
              styleField k style = (case map_of ?st bid of None \<Rightarrow> None | Some s \<Rightarrow> styleField k s)"
        by auto
      have a: "bg style \<noteq> None \<or> stroke style \<noteq> None"
        using 1 k by (auto simp: styleField_def isStyleKey_def split: if_splits)
      have b: "\<exists>rm'\<in>set (ps @ [rm]). key (snd rm') = k' \<and> val (snd rm') = v \<and>
                 styleTarget boxes rm' = Some bid"
        if kk: "isStyleKey k'" and sv: "styleField k' style = Some v" for k' v
      proof (cases "k' = key (snd rm)")
        case True
        then show ?thesis using 1 sv t \<open>bid = t\<close> by auto
      next
        case False
        with 2 kk sv obtain s where s: "map_of ?st bid = Some s" "styleField k' s = Some v"
          by (auto split: option.splits)
        from snoc.IH [OF s(1)] kk s(2) show ?thesis by auto
      qed
      show ?thesis using a b by blast
    qed
  qed
qed

text \<open>Every resolved marker leaves a style on its box; the last one of a key gives the value.\<close>

lemma styles_complete:
  assumes "i < length ps" and "isStyleKey (key (snd (ps ! i)))"
    and "styleTarget boxes (ps ! i) = Some bid"
  shows "\<exists>style. map_of (foldl (styleStep boxes) [] ps) bid = Some style \<and>
           styleField (key (snd (ps ! i))) style \<noteq> None \<and>
           ((\<forall>j. i < j \<and> j < length ps \<longrightarrow>
               \<not> (key (snd (ps ! j)) = key (snd (ps ! i)) \<and> styleTarget boxes (ps ! j) = Some bid)) \<longrightarrow>
            styleField (key (snd (ps ! i))) style = Some (val (snd (ps ! i))))"
  using assms
proof (induction ps rule: rev_induct)
  case Nil
  then show ?case by simp
next
  case (snoc rm ps)
  let ?st = "foldl (styleStep boxes) [] ps"
  let ?k = "key (snd ((ps @ [rm]) ! i))"
  have f: "foldl (styleStep boxes) [] (ps @ [rm]) = styleStep boxes ?st rm" by simp
  show ?case
  proof (cases "i < length ps")
    case False
    then have i: "i = length ps" using snoc.prems(1) by simp
    then have e: "(ps @ [rm]) ! i = rm" by simp
    from snoc.prems(2,3) e have k: "isStyleKey (key (snd rm))" and t: "styleTarget boxes rm = Some bid"
      by simp_all
    from styleStep_hit(1) [OF k t, where styles = ?st] show ?thesis unfolding f e by auto
  next
    case True
    then have e: "(ps @ [rm]) ! i = ps ! i" by (simp add: nth_append)
    from snoc.prems(2,3) e have k: "isStyleKey (key (snd (ps ! i)))"
      and t: "styleTarget boxes (ps ! i) = Some bid" by simp_all
    from snoc.IH [OF True k t] obtain s where s: "map_of ?st bid = Some s"
      and s1: "styleField (key (snd (ps ! i))) s \<noteq> None"
      and s2: "(\<forall>j. i < j \<and> j < length ps \<longrightarrow>
               \<not> (key (snd (ps ! j)) = key (snd (ps ! i)) \<and> styleTarget boxes (ps ! j) = Some bid)) \<longrightarrow>
            styleField (key (snd (ps ! i))) s = Some (val (snd (ps ! i)))"
      by blast
    have later: "(\<forall>j. i < j \<and> j < length (ps @ [rm]) \<longrightarrow>
               \<not> (key (snd ((ps @ [rm]) ! j)) = key (snd (ps ! i)) \<and>
                  styleTarget boxes ((ps @ [rm]) ! j) = Some bid)) \<Longrightarrow>
           (\<forall>j. i < j \<and> j < length ps \<longrightarrow>
               \<not> (key (snd (ps ! j)) = key (snd (ps ! i)) \<and> styleTarget boxes (ps ! j) = Some bid)) \<and>
           \<not> (key (snd rm) = key (snd (ps ! i)) \<and> styleTarget boxes rm = Some bid)"
    proof (intro conjI allI impI)
      fix j
      assume a: "\<forall>j. i < j \<and> j < length (ps @ [rm]) \<longrightarrow>
               \<not> (key (snd ((ps @ [rm]) ! j)) = key (snd (ps ! i)) \<and>
                  styleTarget boxes ((ps @ [rm]) ! j) = Some bid)"
        and j: "i < j \<and> j < length ps"
      from a j have "\<not> (key (snd ((ps @ [rm]) ! j)) = key (snd (ps ! i)) \<and>
                  styleTarget boxes ((ps @ [rm]) ! j) = Some bid)" by simp
      then show "\<not> (key (snd (ps ! j)) = key (snd (ps ! i)) \<and> styleTarget boxes (ps ! j) = Some bid)"
        using j by (simp add: nth_append)
    next
      assume a: "\<forall>j. i < j \<and> j < length (ps @ [rm]) \<longrightarrow>
               \<not> (key (snd ((ps @ [rm]) ! j)) = key (snd (ps ! i)) \<and>
                  styleTarget boxes ((ps @ [rm]) ! j) = Some bid)"
      from a [rule_format, of "length ps"] True
      show "\<not> (key (snd rm) = key (snd (ps ! i)) \<and> styleTarget boxes rm = Some bid)" by simp
    qed
    show ?thesis
    proof (cases "isStyleKey (key (snd rm)) \<and> styleTarget boxes rm \<noteq> None")
      case False
      then have "styleStep boxes ?st rm = ?st" by (intro styleStep_skip) blast
      then show ?thesis unfolding f e using s s1 s2 later by auto
    next
      case True
      then obtain t' where k': "isStyleKey (key (snd rm))" and t': "styleTarget boxes rm = Some t'"
        by (cases "styleTarget boxes rm") simp_all
      note h = styleStep_hit [OF k' t', where styles = ?st]
      show ?thesis
      proof (cases "t' = bid")
        case False
        then have "map_of (styleStep boxes ?st rm) bid = Some s" using h(2) [of bid] s by simp
        then show ?thesis unfolding f e using s1 s2 later t' False by auto
      next
        case True
        from h(1) True obtain s' where s': "map_of (styleStep boxes ?st rm) bid = Some s'"
          and v: "styleField (key (snd rm)) s' = Some (val (snd rm))"
          and o: "\<forall>k. isStyleKey k \<and> k \<noteq> key (snd rm) \<longrightarrow> styleField k s' = styleField k s"
          using s by auto
        show ?thesis
        proof (cases "key (snd rm) = key (snd (ps ! i))")
          case True
          then show ?thesis unfolding f e using s' v later t' \<open>t' = bid\<close> by auto
        next
          case False
          then have "styleField (key (snd (ps ! i))) s' = styleField (key (snd (ps ! i))) s"
            using o k by auto
          then show ?thesis unfolding f e using s' s1 s2 later by auto
        qed
      qed
    qed
  qed
qed

lemma render_boxStyles:
  "render this True ascii = Inr dr \<Longrightarrow>
   dr_boxStyles dr =
     collectBoxStyles
       (detectRectangularBoxes (segmenter this)
          (map cleanLine (parseDocument (segmenter this) ascii)))
       (parseDocument (segmenter this) ascii)"
  by (auto simp: render_def Let_def)

text \<open>
  C8. Let \<open>dr\<close> be the drawing that \<^verbatim>\<open>render\<close> returns for a document, \<open>boxes\<close> the boxes
  detected on its clean lines and \<open>ms\<close> the markers of its lines in the order of the
  marker loop, each with its row. Every detected box stores the area
  \<open>(right - left) * (bottom - top)\<close>. For a \<^verbatim>\<open>bg\<close> or \<^verbatim>\<open>stroke\<close> marker \<open>m\<close> of row \<open>r\<close>:
  when no detected box strictly encloses the position (\<open>r\<close>, \<open>index m\<close>) the lookup
  returns \<^verbatim>\<open>null\<close>; otherwise it returns a detected box that encloses the position and
  has the least area of all detected boxes enclosing it, and the styles of the drawing
  hold a style for that box in which the field of the marker is set, to the value of
  the marker unless a later marker of the same kind resolves to the same box.
  Conversely every style of the drawing has \<^verbatim>\<open>bg\<close> or \<^verbatim>\<open>stroke\<close> set, and every value it
  holds is the value of a marker of that kind for which the lookup returns this box: a
  detected box of least area among those enclosing the marker. When no \<^verbatim>\<open>bg\<close> or
  \<^verbatim>\<open>stroke\<close> marker lies strictly inside a detected box, the drawing has no box style.
\<close>

theorem C8_smallest_enclosing_box:
  assumes "render this True ascii = Inr dr"
    and "parsed = parseDocument (segmenter this) ascii"
    and "boxes = detectRectangularBoxes (segmenter this) (map cleanLine parsed)"
    and "ms = documentMarkers parsed"
  shows
   "(\<forall>r m. (r, m) \<in> set ms \<longleftrightarrow> r < length parsed \<and> m \<in> set (markers (parsed ! r))) \<and>
    (\<forall>b\<in>set boxes. area b = (box_right b - box_left b) * (box_bottom b - box_top b)) \<and>
    (\<forall>i r m. i < length ms \<and> ms ! i = (r, m) \<and> isStyleKey (key m) \<longrightarrow>
       (case findSmallestEnclosingBox boxes r (index m) of
          None \<Rightarrow> \<forall>b\<in>set boxes. \<not> encloses b r (index m)
        | Some b \<Rightarrow>
            b \<in> set boxes \<and> encloses b r (index m) \<and>
            (\<forall>b'\<in>set boxes. encloses b' r (index m) \<longrightarrow> area b \<le> area b') \<and>
            (\<exists>style. map_of (dr_boxStyles dr) (boxIdOf b) = Some style \<and>
               styleField (key m) style \<noteq> None \<and>
               ((\<forall>j. i < j \<and> j < length ms \<longrightarrow>
                   \<not> (key (snd (ms ! j)) = key m \<and>
                      styleTarget boxes (ms ! j) = Some (boxIdOf b))) \<longrightarrow>
                styleField (key m) style = Some (val m))))) \<and>
    (\<forall>bid style. map_of (dr_boxStyles dr) bid = Some style \<longrightarrow>
       (bg style \<noteq> None \<or> stroke style \<noteq> None) \<and>
       (\<forall>k v. isStyleKey k \<and> styleField k style = Some v \<longrightarrow>
          (\<exists>r m b. (r, m) \<in> set ms \<and> key m = k \<and> val m = v \<and>
             findSmallestEnclosingBox boxes r (index m) = Some b \<and> boxIdOf b = bid \<and>
             b \<in> set boxes \<and> encloses b r (index m) \<and>
             (\<forall>b'\<in>set boxes. encloses b' r (index m) \<longrightarrow> area b \<le> area b')))) \<and>
    ((\<forall>r m. (r, m) \<in> set ms \<and> isStyleKey (key m) \<longrightarrow>
         (\<forall>b\<in>set boxes. \<not> encloses b r (index m))) \<longrightarrow>
     dr_boxStyles dr = [])"
proof -
  have st: "dr_boxStyles dr = foldl (styleStep boxes) [] ms"
    using render_boxStyles [OF assms(1)] assms(2,3,4)
    by (simp add: collectBoxStyles_documentMarkers)
  have A: "\<forall>r m. (r, m) \<in> set ms \<longleftrightarrow> r < length parsed \<and> m \<in> set (markers (parsed ! r))"
    unfolding assms(4) by (simp add: documentMarkers_iff)
  have B: "\<forall>b\<in>set boxes. area b = (box_right b - box_left b) * (box_bottom b - box_top b)"
    unfolding assms(3) using detected_area by blast
  have C: "case findSmallestEnclosingBox boxes r (index m) of
          None \<Rightarrow> \<forall>b\<in>set boxes. \<not> encloses b r (index m)
        | Some b \<Rightarrow>
            b \<in> set boxes \<and> encloses b r (index m) \<and>
            (\<forall>b'\<in>set boxes. encloses b' r (index m) \<longrightarrow> area b \<le> area b') \<and>
            (\<exists>style. map_of (dr_boxStyles dr) (boxIdOf b) = Some style \<and>
               styleField (key m) style \<noteq> None \<and>
               ((\<forall>j. i < j \<and> j < length ms \<longrightarrow>
                   \<not> (key (snd (ms ! j)) = key m \<and>
                      styleTarget boxes (ms ! j) = Some (boxIdOf b))) \<longrightarrow>
                styleField (key m) style = Some (val m)))"
    if i: "i < length ms" and e: "ms ! i = (r, m)" and k: "isStyleKey (key m)" for i r m
  proof (cases "findSmallestEnclosingBox boxes r (index m)")
    case None
    then show ?thesis using findSmallest_None [of boxes r "index m"] by simp
  next
    case (Some b)
    have t: "styleTarget boxes (ms ! i) = Some (boxIdOf b)"
      using Some e by (simp add: styleTarget_def)
    have k': "isStyleKey (key (snd (ms ! i)))" using k e by simp
    from styles_complete [OF i k' t] findSmallest_Some [OF Some] Some
    show ?thesis unfolding st e by simp
  qed
  have D: "(bg style \<noteq> None \<or> stroke style \<noteq> None) \<and>
       (\<forall>k v. isStyleKey k \<and> styleField k style = Some v \<longrightarrow>
          (\<exists>r m b. (r, m) \<in> set ms \<and> key m = k \<and> val m = v \<and>
             findSmallestEnclosingBox boxes r (index m) = Some b \<and> boxIdOf b = bid \<and>
             b \<in> set boxes \<and> encloses b r (index m) \<and>
             (\<forall>b'\<in>set boxes. encloses b' r (index m) \<longrightarrow> area b \<le> area b')))"
    if m: "map_of (dr_boxStyles dr) bid = Some style" for bid style
  proof -
    note s = styles_sound [OF m [unfolded st]]
    have "\<exists>r m b. (r, m) \<in> set ms \<and> key m = k \<and> val m = v \<and>
             findSmallestEnclosingBox boxes r (index m) = Some b \<and> boxIdOf b = bid \<and>
             b \<in> set boxes \<and> encloses b r (index m) \<and>
             (\<forall>b'\<in>set boxes. encloses b' r (index m) \<longrightarrow> area b \<le> area b')"
      if "isStyleKey k" and "styleField k style = Some v" for k v
    proof -
      from s that obtain rm where rm: "rm \<in> set ms" "key (snd rm) = k" "val (snd rm) = v"
        "styleTarget boxes rm = Some bid" by blast
      obtain r m where e: "rm = (r, m)" by (cases rm) auto
      from rm(4) e obtain b where b: "findSmallestEnclosingBox boxes r (index m) = Some b"
        "boxIdOf b = bid" by (auto simp: styleTarget_def)
      from findSmallest_Some [OF b(1)] b rm e show ?thesis by auto
    qed
    then show ?thesis using s by blast
  qed
  have E: "dr_boxStyles dr = []"
    if n: "\<forall>r m. (r, m) \<in> set ms \<and> isStyleKey (key m) \<longrightarrow>
         (\<forall>b\<in>set boxes. \<not> encloses b r (index m))"
  proof (cases "dr_boxStyles dr")
    case Nil
    then show ?thesis .
  next
    case (Cons p rest)
    obtain bid style where p: "p = (bid, style)" by (cases p) auto
    then have m: "map_of (dr_boxStyles dr) bid = Some style" using Cons by simp
    from D [OF m] have "bg style \<noteq> None \<or> stroke style \<noteq> None" by blast
    then have "\<exists>k. isStyleKey k \<and> styleField k style \<noteq> None"
    proof
      assume "bg style \<noteq> None"
      then have "isStyleKey (js ''bg'') \<and> styleField (js ''bg'') style \<noteq> None"
        by (simp add: isStyleKey_def styleField_def)
      then show ?thesis by blast
    next
      assume "stroke style \<noteq> None"
      then have "isStyleKey (js ''stroke'') \<and> styleField (js ''stroke'') style \<noteq> None"
        by (simp add: isStyleKey_def styleField_def js_def)
      then show ?thesis by blast
    qed
    then obtain k where k: "isStyleKey k" "styleField k style \<noteq> None" by blast
    then obtain v where "styleField k style = Some v" by auto
    with D [OF m] k(1) obtain r m' b where "(r, m') \<in> set ms" "key m' = k" "b \<in> set boxes"
      "encloses b r (index m')" by blast
    with n k(1) show ?thesis by blast
  qed
  show ?thesis using A B C D E by blast
qed

lemma safe_f5: "isSafeColorValue (js ''#f5f5f5'')"
  by (rule hex_safe) (simp add: matchHex_def js_def isHexDigit_def isDigit_def glyph_defs)

theorem C8_smallest_enclosing_box_witness:
  "\<exists>dr. render (defaultScrub None) True
       (js ''+-----+'' @ [c_newline] @ js ''|+-+  |'' @ [c_newline] @
        js ''||{#bg:#f5f5f5} |  |'' @ [c_newline] @ js ''|+-+  |'' @ [c_newline] @
        js ''+-----+'' @ [c_newline] @ js ''{#stroke:red}'') = Inr dr \<and>
     documentMarkers (parseDocument None
       (js ''+-----+'' @ [c_newline] @ js ''|+-+  |'' @ [c_newline] @
        js ''||{#bg:#f5f5f5} |  |'' @ [c_newline] @ js ''|+-+  |'' @ [c_newline] @
        js ''+-----+'' @ [c_newline] @ js ''{#stroke:red}'')) =
       [(2, \<lparr>key = js ''bg'', val = js ''#f5f5f5'', index = 2\<rparr>),
        (5, \<lparr>key = js ''stroke'', val = js ''red'', index = 0\<rparr>)] \<and>
     detectRectangularBoxes None (map cleanLine (parseDocument None
       (js ''+-----+'' @ [c_newline] @ js ''|+-+  |'' @ [c_newline] @
        js ''||{#bg:#f5f5f5} |  |'' @ [c_newline] @ js ''|+-+  |'' @ [c_newline] @
        js ''+-----+'' @ [c_newline] @ js ''{#stroke:red}''))) =
       [\<lparr>box_top = 0, box_right = 6, box_bottom = 4, box_left = 0, area = 24\<rparr>,
        \<lparr>box_top = 1, box_right = 3, box_bottom = 3, box_left = 1, area = 4\<rparr>] \<and>
     map_of (dr_boxStyles dr) (1, 1, 3, 3) = Some \<lparr>bg = Some (js ''#f5f5f5''), stroke = None\<rparr> \<and>
     map_of (dr_boxStyles dr) (0, 0, 4, 6) = None"
proof -
  let ?doc = "js ''+-----+'' @ [c_newline] @ js ''|+-+  |'' @ [c_newline] @
        js ''||{#bg:#f5f5f5} |  |'' @ [c_newline] @ js ''|+-+  |'' @ [c_newline] @
        js ''+-----+'' @ [c_newline] @ js ''{#stroke:red}''"
  let ?outer = "\<lparr>box_top = 0, box_right = 6, box_bottom = 4, box_left = 0, area = 24\<rparr>"
  let ?inner = "\<lparr>box_top = 1, box_right = 3, box_bottom = 3, box_left = 1, area = 4\<rparr>"
  let ?bgm = "\<lparr>key = js ''bg'', val = js ''#f5f5f5'', index = 2\<rparr>"
  let ?stm = "\<lparr>key = js ''stroke'', val = js ''red'', index = 0\<rparr>"
  let ?ms = "[(2::nat, ?bgm), (5, ?stm)]"
  have p: "parseDocument None ?doc =
     [\<lparr>rawLine = js ''+-----+'', cleanLine = js ''+-----+'', markers = [], hadMarkers = False\<rparr>,
      \<lparr>rawLine = js ''|+-+  |'', cleanLine = js ''|+-+  |'', markers = [], hadMarkers = False\<rparr>,
      \<lparr>rawLine = js ''||{#bg:#f5f5f5} |  |'', cleanLine = js ''|| |  |'', markers = [?bgm],
        hadMarkers = True\<rparr>,
      \<lparr>rawLine = js ''|+-+  |'', cleanLine = js ''|+-+  |'', markers = [], hadMarkers = False\<rparr>,
      \<lparr>rawLine = js ''+-----+'', cleanLine = js ''+-----+'', markers = [], hadMarkers = False\<rparr>,
      \<lparr>rawLine = js ''{#stroke:red}'', cleanLine = [], markers = [?stm], hadMarkers = True\<rparr>]"
    using safe_f5 safe_red by (simp add: doc_eval_simps marker_eval_simps)
  have ms: "documentMarkers (parseDocument None ?doc) = ?ms"
    unfolding p by (simp add: documentMarkers_def upt_rec)
  have b: "detectRectangularBoxes None (map cleanLine (parseDocument None ?doc)) = [?outer, ?inner]"
    unfolding p by (simp add: box_eval_simps upt_rec)
  have f1: "findSmallestEnclosingBox [?outer, ?inner] 2 2 = Some ?inner"
    by (simp add: findSmallestEnclosingBox_def)
  have f2: "findSmallestEnclosingBox [?outer, ?inner] 5 0 = None"
    by (simp add: findSmallestEnclosingBox_def)
  have ids: "boxIdOf ?inner = (1, 1, 3, 3)" "boxIdOf ?outer = (0, 0, 4, 6)"
    by (simp_all add: boxIdOf_def)
  have keys: "isStyleKey (js ''bg'')" "isStyleKey (js ''stroke'')" "js ''bg'' \<noteq> js ''stroke''"
    by (simp_all add: isStyleKey_def js_def)
  obtain dr where dr: "render (defaultScrub None) True ?doc = Inr dr" using render_total by blast
  note c8 = C8_smallest_enclosing_box [OF dr refl refl refl, unfolded defaultScrub_simps ms b]
  from c8 have C: "\<forall>i r m. i < length ?ms \<and> ?ms ! i = (r, m) \<and> isStyleKey (key m) \<longrightarrow>
       (case findSmallestEnclosingBox [?outer, ?inner] r (index m) of
          None \<Rightarrow> \<forall>b\<in>set [?outer, ?inner]. \<not> encloses b r (index m)
        | Some b \<Rightarrow>
            b \<in> set [?outer, ?inner] \<and> encloses b r (index m) \<and>
            (\<forall>b'\<in>set [?outer, ?inner]. encloses b' r (index m) \<longrightarrow> area b \<le> area b') \<and>
            (\<exists>style. map_of (dr_boxStyles dr) (boxIdOf b) = Some style \<and>
               styleField (key m) style \<noteq> None \<and>
               ((\<forall>j. i < j \<and> j < length ?ms \<longrightarrow>
                   \<not> (key (snd (?ms ! j)) = key m \<and>
                      styleTarget [?outer, ?inner] (?ms ! j) = Some (boxIdOf b))) \<longrightarrow>
                styleField (key m) style = Some (val m))))"
    by blast
  from c8 have D: "\<forall>bid style. map_of (dr_boxStyles dr) bid = Some style \<longrightarrow>
       (bg style \<noteq> None \<or> stroke style \<noteq> None) \<and>
       (\<forall>k v. isStyleKey k \<and> styleField k style = Some v \<longrightarrow>
          (\<exists>r m b. (r, m) \<in> set ?ms \<and> key m = k \<and> val m = v \<and>
             findSmallestEnclosingBox [?outer, ?inner] r (index m) = Some b \<and> boxIdOf b = bid \<and>
             b \<in> set [?outer, ?inner] \<and> encloses b r (index m) \<and>
             (\<forall>b'\<in>set [?outer, ?inner]. encloses b' r (index m) \<longrightarrow> area b \<le> area b')))"
    by blast
  have only: "k = js ''bg'' \<and> bid = (1, 1, 3, 3) \<and> v = js ''#f5f5f5''"
    if "(r, m) \<in> set ?ms" "key m = k" "val m = v"
      "findSmallestEnclosingBox [?outer, ?inner] r (index m) = Some b" "boxIdOf b = bid"
    for r m k v b bid
    using that f1 f2 ids by auto
  from C [rule_format, of 0 2 ?bgm] keys f1 ids
  obtain style where s: "map_of (dr_boxStyles dr) (1, 1, 3, 3) = Some style"
    and sb: "bg style = Some (js ''#f5f5f5'')"
    by (auto simp: styleField_def)
  have ss: "stroke style = None"
  proof (rule ccontr)
    assume "stroke style \<noteq> None"
    then obtain v where "styleField (js ''stroke'') style = Some v"
      using keys by (auto simp: styleField_def)
    with D s keys(2) obtain r m b where "(r, m) \<in> set ?ms" "key m = js ''stroke''" "val m = v"
      "findSmallestEnclosingBox [?outer, ?inner] r (index m) = Some b" "boxIdOf b = (1, 1, 3, 3)"
      by blast
    from only [OF this] keys(3) show False by simp
  qed
  have so: "map_of (dr_boxStyles dr) (0, 0, 4, 6) = None"
  proof (rule ccontr)
    assume "map_of (dr_boxStyles dr) (0, 0, 4, 6) \<noteq> None"
    then obtain st where st: "map_of (dr_boxStyles dr) (0, 0, 4, 6) = Some st" by auto
    with D have "bg st \<noteq> None \<or> stroke st \<noteq> None" by blast
    then obtain k v where "isStyleKey k" "styleField k st = Some v"
      using keys by (auto simp: styleField_def)
    with D st obtain r m b where "(r, m) \<in> set ?ms" "key m = k" "val m = v"
      "findSmallestEnclosingBox [?outer, ?inner] r (index m) = Some b" "boxIdOf b = (0, 0, 4, 6)"
      by blast
    from only [OF this] show False by simp
  qed
  have "style = \<lparr>bg = Some (js ''#f5f5f5''), stroke = None\<rparr>" using sb ss by (cases style) simp
  then show ?thesis using dr ms b s so by blast
qed

end
